theory Spec2Isabelle
  imports Main
begin

section \<open>Python values and errors\<close>

text \<open>
  The program is one Python module, \<^verbatim>\<open>ldsdirectory.py\<close>. Its data are the values that
  \<^verbatim>\<open>json()\<close> decodes: \<^verbatim>\<open>None\<close>, booleans, integers, strings, lists and dictionaries
  with string keys. A dictionary is the list of its items, in the order of the
  dictionary, with distinct keys. Floating-point numbers are left out: no field the module
  reads is one. A string is the list of its code points, and a character is a code point
  from 0 to 255; text with a code point above 255 is outside the model.
\<close>

datatype pyval =
    PNone
  | PBool bool
  | PInt int
  | PStr string
  | PList "pyval list"
  | PDict "(string \<times> pyval) list"

text \<open>
  The exceptions the module can raise, as values. \<open>Exception\<close> carries a message; it also
  stands for what a library raises on a failed request or a failed write.
\<close>

datatype py_error =
    KeyError string
  | TypeError
  | AttributeError
  | Exception string

text \<open>Sequencing of a computation that may raise: the first error wins.\<close>

fun on_ok :: "py_error + 'a \<Rightarrow> ('a \<Rightarrow> py_error + 'b) \<Rightarrow> py_error + 'b" where
  "on_ok (Inl e) f = Inl e"
| "on_ok (Inr x) f = f x"

text \<open>Python's truth value of an object, as \<^verbatim>\<open>if x:\<close> and \<^verbatim>\<open>filter(lambda x: x, ...)\<close> test it.\<close>

fun truthy :: "pyval \<Rightarrow> bool" where
  "truthy PNone = False"
| "truthy (PBool b) = b"
| "truthy (PInt i) = (i \<noteq> 0)"
| "truthy (PStr s) = (s \<noteq> [])"
| "truthy (PList xs) = (xs \<noteq> [])"
| "truthy (PDict kvs) = (kvs \<noteq> [])"

text \<open>
  \<^verbatim>\<open>obj[key]\<close> with a string key: a dictionary gives the value or raises KeyError; every
  other value raises TypeError (a list or a string wants an integer index, the rest is
  not subscriptable).
\<close>

fun subscript :: "pyval \<Rightarrow> string \<Rightarrow> py_error + pyval" where
  "subscript (PDict kvs) k = (case map_of kvs k of None \<Rightarrow> Inl (KeyError k) | Some v \<Rightarrow> Inr v)"
| "subscript PNone k = Inl TypeError"
| "subscript (PBool b) k = Inl TypeError"
| "subscript (PInt i) k = Inl TypeError"
| "subscript (PStr s) k = Inl TypeError"
| "subscript (PList xs) k = Inl TypeError"

text \<open>
  The items a \<^verbatim>\<open>for\<close> loop visits: the elements of a list, the keys of a dictionary,
  the characters of a string; the other values are not iterable.
\<close>

fun py_iter :: "pyval \<Rightarrow> py_error + pyval list" where
  "py_iter (PList xs) = Inr xs"
| "py_iter (PDict kvs) = Inr (map (\<lambda>kv. PStr (fst kv)) kvs)"
| "py_iter (PStr s) = Inr (map (\<lambda>c. PStr [c]) s)"
| "py_iter PNone = Inl TypeError"
| "py_iter (PBool b) = Inl TypeError"
| "py_iter (PInt i) = Inl TypeError"

subsection \<open>\<^verbatim>\<open>str()\<close>\<close>

definition digit :: "nat \<Rightarrow> char" where
  "digit n = ''0123456789'' ! n"

function show_nat :: "nat \<Rightarrow> string" where
  "show_nat n = (if n < 10 then [digit n] else show_nat (n div 10) @ [digit (n mod 10)])"
  by pat_completeness auto
termination
  by (relation "measure (\<lambda>n. n)") auto

declare show_nat.simps [simp del]

definition show_int :: "int \<Rightarrow> string" where
  "show_int i = (if i < 0 then CHR ''-'' # show_nat (nat (- i)) else show_nat (nat i))"

text \<open>
  \<^verbatim>\<open>str(x)\<close>. The text of a list or a dictionary is its \<^verbatim>\<open>repr\<close>, which is taken as the
  parameter \<open>rp\<close>: nothing below depends on what it is.
\<close>

fun py_str :: "(pyval \<Rightarrow> string) \<Rightarrow> pyval \<Rightarrow> string" where
  "py_str rp PNone = ''None''"
| "py_str rp (PBool b) = (if b then ''True'' else ''False'')"
| "py_str rp (PInt i) = show_int i"
| "py_str rp (PStr s) = s"
| "py_str rp (PList xs) = rp (PList xs)"
| "py_str rp (PDict kvs) = rp (PDict kvs)"

subsection \<open>String methods\<close>

text \<open>
  \<^verbatim>\<open>s.split(',')\<close>, as CPython scans: the characters of the current part are collected
  until a separator closes it; the end of the string closes the last part.
\<close>

fun split_scan :: "char \<Rightarrow> string \<Rightarrow> string \<Rightarrow> string list" where
  "split_scan sep cur [] = [rev cur]"
| "split_scan sep cur (c # cs) =
     (if c = sep then rev cur # split_scan sep [] cs else split_scan sep (c # cur) cs)"

definition py_split :: "char \<Rightarrow> string \<Rightarrow> string list" where
  "py_split sep s = split_scan sep [] s"

text \<open>
  The characters for which \<^verbatim>\<open>str.isspace\<close> holds, the ones \<^verbatim>\<open>strip()\<close> removes. Below
  256 they are the code points 9 to 13, 28 to 32, 133 (next line) and 160 (no-break
  space).
\<close>

definition py_isspace :: "char \<Rightarrow> bool" where
  "py_isspace c =
     (let n = (of_char c :: nat)
      in (9 \<le> n \<and> n \<le> 13) \<or> (28 \<le> n \<and> n \<le> 32) \<or> n = 133 \<or> n = 160)"

text \<open>
  \<^verbatim>\<open>s.strip()\<close>, as CPython scans: an index runs up from the left end over whitespace,
  another runs down from the right end, never below the first; the slice between them is
  the result.
\<close>

function lscan :: "string \<Rightarrow> nat \<Rightarrow> nat" where
  "lscan s i = (if i < length s \<and> py_isspace (s ! i) then lscan s (Suc i) else i)"
  by pat_completeness auto
termination
  by (relation "measure (\<lambda>(s, i). length s - i)") auto

function rscan :: "string \<Rightarrow> nat \<Rightarrow> nat \<Rightarrow> nat" where
  "rscan s i j = (if i < j \<and> py_isspace (s ! (j - 1)) then rscan s i (j - 1) else j)"
  by pat_completeness auto
termination
  by (relation "measure (\<lambda>(s, i, j). j)") auto

declare lscan.simps [simp del] rscan.simps [simp del]

definition py_strip :: "string \<Rightarrow> string" where
  "py_strip s = (let i = lscan s 0; j = rscan s i (length s) in take (j - i) (drop i s))"

text \<open>\<^verbatim>\<open>sep.join(parts)\<close>.\<close>

fun py_join :: "string \<Rightarrow> string list \<Rightarrow> string" where
  "py_join sep [] = []"
| "py_join sep [x] = x"
| "py_join sep (x # y # ys) = x @ sep @ py_join sep (y # ys)"

text \<open>
  \<^verbatim>\<open>s.replace(old, new)\<close>: the occurrences of \<open>old\<close> are found from the left, each search
  starting after the previous occurrence, and the text put in is not searched again. With
  an empty \<open>old\<close>, \<open>new\<close> goes before every character and at the end.
\<close>

function py_replace :: "string \<Rightarrow> string \<Rightarrow> string \<Rightarrow> string" where
  "py_replace old new [] = (if old = [] then new else [])"
| "py_replace old new (c # cs) =
     (if old = [] then new @ c # py_replace old new cs
      else if take (length old) (c # cs) = old
        then new @ py_replace old new (drop (length old) (c # cs))
        else c # py_replace old new cs)"
  by pat_completeness auto
termination
  by (relation "measure (\<lambda>(old, new, s). length s)") auto

text \<open>
  \<^verbatim>\<open>os.path.join(a, b)\<close> of \<^verbatim>\<open>posixpath\<close>: an absolute \<open>b\<close> replaces \<open>a\<close>; otherwise the
  two are put together, with a slash between them unless \<open>a\<close> is empty or ends in one.
\<close>

definition path_join :: "string \<Rightarrow> string \<Rightarrow> string" where
  "path_join a b =
     (if b \<noteq> [] \<and> hd b = CHR ''/'' then b
      else if a = [] \<or> last a = CHR ''/'' then a @ b
      else a @ ''/'' @ b)"

section \<open>Member\<close>

text \<open>
  The dataclass \<^verbatim>\<open>Member\<close>. Python does not enforce the annotations, so a field holds
  whatever value the payload had; \<^verbatim>\<open>image_path\<close> is only ever \<^verbatim>\<open>None\<close> or a path.
\<close>

record member =
  id' :: pyval
  member_number :: pyval
  given_name :: pyval
  surname :: pyval
  preferred_name :: pyval
  email :: pyval
  phone :: pyval
  address_parts :: "pyval list"
  calling :: pyval
  image_path :: "string option"

text \<open>
  \<^verbatim>\<open>Member.formatted_name\<close> (lines 27-33). Only a string has \<^verbatim>\<open>split\<close>; any other value
  raises AttributeError.
\<close>

definition formatted_name :: "member \<Rightarrow> py_error + string" where
  "formatted_name m =
     (case preferred_name m of
        PStr s \<Rightarrow>
          (let parts = py_split CHR '','' s;
               parts = map py_strip parts;
               parts = rev parts
           in Inr (py_join '' '' parts))
      | _ \<Rightarrow> Inl AttributeError)"

text \<open>\<^verbatim>\<open>Member.formatted_calling\<close> (lines 35-40).\<close>

definition formatted_calling :: "member \<Rightarrow> pyval" where
  "formatted_calling m = (if truthy (calling m) then calling m else PStr ''<i>No calling</i>'')"

text \<open>
  \<^verbatim>\<open>Member.from_json\<close> (lines 42-64). The five description fields are read first, in
  order, then the fields of the head of house, each through \<^verbatim>\<open>data['headOfHouse']\<close>.
\<close>

definition head_field :: "pyval \<Rightarrow> string \<Rightarrow> py_error + pyval" where
  "head_field data k = on_ok (subscript data ''headOfHouse'') (\<lambda>h. subscript h k)"

definition from_json :: "pyval \<Rightarrow> pyval \<Rightarrow> py_error + member" where
  "from_json data calling_arg =
     on_ok (subscript data ''desc1'') (\<lambda>d1.
     on_ok (subscript data ''desc2'') (\<lambda>d2.
     on_ok (subscript data ''desc3'') (\<lambda>d3.
     on_ok (subscript data ''desc4'') (\<lambda>d4.
     on_ok (subscript data ''desc5'') (\<lambda>d5.
     let address_parts = filter truthy [d1, d2, d3, d4, d5] in
     on_ok (head_field data ''individualId'') (\<lambda>v_id.
     on_ok (head_field data ''memberId'') (\<lambda>v_number.
     on_ok (head_field data ''givenName1'') (\<lambda>v_given.
     on_ok (head_field data ''surname'') (\<lambda>v_surname.
     on_ok (head_field data ''preferredName'') (\<lambda>v_preferred.
     on_ok (head_field data ''email'') (\<lambda>v_email.
     on_ok (head_field data ''phone'') (\<lambda>v_phone.
     Inr \<lparr> id' = v_id, member_number = v_number, given_name = v_given,
           surname = v_surname, preferred_name = v_preferred, email = v_email,
           phone = v_phone, address_parts = address_parts, calling = calling_arg,
           image_path = None \<rparr>))))))))))))"


section \<open>Dictionaries\<close>

text \<open>
  A Python dictionary keeps its keys in the order of their first insertion; storing under
  a key that is there already replaces the value and keeps the key and its place. The
  equality of keys is a parameter: \<open>(=)\<close> for string keys, \<open>py_eq\<close> for any hashable value.
\<close>

fun dict_get :: "('k \<Rightarrow> 'k \<Rightarrow> bool) \<Rightarrow> ('k \<times> 'v) list \<Rightarrow> 'k \<Rightarrow> 'v option" where
  "dict_get eq [] k = None"
| "dict_get eq (kv # d) k = (if eq (fst kv) k then Some (snd kv) else dict_get eq d k)"

fun dict_set :: "('k \<Rightarrow> 'k \<Rightarrow> bool) \<Rightarrow> 'k \<Rightarrow> 'v \<Rightarrow> ('k \<times> 'v) list \<Rightarrow> ('k \<times> 'v) list" where
  "dict_set eq k v [] = [(k, v)]"
| "dict_set eq k v (kv # d) =
     (if eq (fst kv) k then (fst kv, v) # d else kv # dict_set eq k v d)"

text \<open>
  Lists and dictionaries are not hashable and cannot be keys. Among the hashable values a
  boolean equals the integer 0 or 1, and nothing else crosses the types: the integer 1 and
  the string \<^verbatim>\<open>'1'\<close> are different keys.
\<close>

fun hashable :: "pyval \<Rightarrow> bool" where
  "hashable (PList xs) = False"
| "hashable (PDict kvs) = False"
| "hashable v = True"

fun py_num :: "pyval \<Rightarrow> int option" where
  "py_num (PBool b) = Some (if b then 1 else 0)"
| "py_num (PInt i) = Some i"
| "py_num v = None"

definition py_eq :: "pyval \<Rightarrow> pyval \<Rightarrow> bool" where
  "py_eq a b =
     (case (py_num a, py_num b) of
        (Some x, Some y) \<Rightarrow> x = y
      | (None, None) \<Rightarrow> a = b
      | _ \<Rightarrow> False)"

section \<open>DataFetcher\<close>

text \<open>
  The attributes of a \<^verbatim>\<open>DataFetcher\<close> that the methods below read and write:
  \<^verbatim>\<open>_cache_dir\<close>, \<^verbatim>\<open>_members\<close> and \<^verbatim>\<open>_ids\<close>.
\<close>

record fetcher =
  cache_dir :: string
  members :: "(string \<times> member) list"
  ids :: "string list"

text \<open>
  \<^verbatim>\<open>DataFetcher.__init__\<close> (lines 79-94); \<open>user\<close> and \<open>password\<close> are what
  \<^verbatim>\<open>os.getenv\<close> returned. The client, which a library builds and logs in, is not part
  of the model.
\<close>

definition not_set :: "string option \<Rightarrow> bool" where
  "not_set v = (case v of None \<Rightarrow> True | Some s \<Rightarrow> s = [])"

definition new_fetcher :: "string option \<Rightarrow> string option \<Rightarrow> string \<Rightarrow> py_error + fetcher" where
  "new_fetcher user password output_dir =
     (if not_set user \<or> not_set password then Inl (Exception ''User or password not set'')
      else Inr \<lparr> cache_dir = path_join output_dir ''cache'', members = [], ids = [] \<rparr>)"

subsection \<open>\<^verbatim>\<open>load_members\<close> (lines 100-118)\<close>

text \<open>
  The loop of lines 104-105. In an assignment the right-hand side is evaluated before the
  subscript of the target, so \<^verbatim>\<open>callingName\<close> is read first. The key is the identifier
  as the payload has it.
\<close>

fun index_callings :: "pyval list \<Rightarrow> (pyval \<times> pyval) list \<Rightarrow> py_error + (pyval \<times> pyval) list" where
  "index_callings [] d = Inr d"
| "index_callings (c # cs) d =
     on_ok (subscript c ''callingName'') (\<lambda>name.
     on_ok (subscript c ''individualId'') (\<lambda>k.
     if hashable k then index_callings cs (dict_set py_eq k name d) else Inl TypeError))"

text \<open>\<^verbatim>\<open>d.get(k)\<close>: the value, or \<^verbatim>\<open>None\<close>.\<close>

definition get_or_none :: "(pyval \<times> pyval) list \<Rightarrow> pyval \<Rightarrow> pyval" where
  "get_or_none d k = (case dict_get py_eq d k of None \<Rightarrow> PNone | Some v \<Rightarrow> v)"

text \<open>The comprehension of lines 107-113: the calling is looked up under the identifier's text.\<close>

fun build_members :: "(pyval \<Rightarrow> string) \<Rightarrow> (pyval \<times> pyval) list \<Rightarrow> pyval list \<Rightarrow> py_error + member list" where
  "build_members rp ids_to_calling [] = Inr []"
| "build_members rp ids_to_calling (data # rest) =
     on_ok (head_field data ''individualId'') (\<lambda>i.
     on_ok (from_json data (get_or_none ids_to_calling (PStr (py_str rp i)))) (\<lambda>m.
     on_ok (build_members rp ids_to_calling rest) (\<lambda>ms. Inr (m # ms))))"

text \<open>The loop of lines 114-115.\<close>

fun store_members :: "(pyval \<Rightarrow> string) \<Rightarrow> member list \<Rightarrow> (string \<times> member) list \<Rightarrow> (string \<times> member) list" where
  "store_members rp [] d = d"
| "store_members rp (m # ms) d = store_members rp ms (dict_set (=) (py_str rp (id' m)) m d)"

text \<open>The comprehension of lines 117-118.\<close>

fun household_ids :: "(pyval \<Rightarrow> string) \<Rightarrow> pyval list \<Rightarrow> py_error + string list" where
  "household_ids rp [] = Inr []"
| "household_ids rp (h # hs) =
     on_ok (head_field h ''individualId'') (\<lambda>i.
     on_ok (household_ids rp hs) (\<lambda>is. Inr (py_str rp i # is)))"

text \<open>
  \<open>payload\<close> is the decoded answer of the \<^verbatim>\<open>unit-members-and-callings\<close> request. Every
  step that can raise comes before the first attribute is written, so an error leaves the
  fetcher as it was.
\<close>

definition load_members :: "(pyval \<Rightarrow> string) \<Rightarrow> pyval \<Rightarrow> fetcher \<Rightarrow> py_error + fetcher" where
  "load_members rp payload f =
     on_ok (subscript payload ''callings'') (\<lambda>cl.
     on_ok (py_iter cl) (\<lambda>cs.
     on_ok (index_callings cs []) (\<lambda>ids_to_calling.
     on_ok (subscript payload ''households'') (\<lambda>hl.
     on_ok (py_iter hl) (\<lambda>hs.
     on_ok (build_members rp ids_to_calling hs) (\<lambda>ms.
     on_ok (household_ids rp hs) (\<lambda>is.
     Inr (f\<lparr> members := store_members rp ms (members f), ids := is \<rparr>))))))))"

subsection \<open>The cache directory and the network\<close>

text \<open>
  What the methods do outside the object: they list the cache directory, ask the service
  for photo metadata, and stream a photo into a file. \<open>listing\<close> is what
  \<^verbatim>\<open>os.listdir(cache_dir)\<close> returns, \<open>requests\<close> the HTTP requests sent so far, oldest
  first. A metadata request is recorded with the identifiers it asks for, in the order in
  which the program joined them; \<open>member_text\<close> is the text it sends.
\<close>

datatype request =
    PhotoUrl "string list"
  | Download string pyval

definition member_text :: "string list \<Rightarrow> string" where
  "member_text order = py_join '','' order"

record world =
  listing :: "string list"
  requests :: "request list"

text \<open>
  The behaviour of the collaborators, as parameters: \<open>repr\<close> is the text of a list or
  dictionary; \<open>set_order expected downloaded\<close> is the order in which Python iterates the
  set \<^verbatim>\<open>set(expected) - set(downloaded)\<close>, which the implementation chooses (it depends
  on hash values and on how the set was built); \<open>photo_url\<close> is the decoded answer to the
  metadata request with the given \<^verbatim>\<open>member\<close> text, or the error it raises;
  \<open>stream_to_file path url l\<close> is the outcome of getting \<open>url\<close> and writing the file
  \<open>path\<close> when the cache directory lists \<open>l\<close>: the error raised, if any, and the listing
  afterwards.
\<close>

record env =
  repr :: "pyval \<Rightarrow> string"
  set_order :: "string list \<Rightarrow> string list \<Rightarrow> string list"
  photo_url :: "string \<Rightarrow> py_error + pyval"
  stream_to_file :: "string \<Rightarrow> pyval \<Rightarrow> string list \<Rightarrow> py_error option \<times> string list"

text \<open>\<^verbatim>\<open>_download_file\<close> (lines 157-163): one request, and the file written.\<close>

definition download_file :: "env \<Rightarrow> string \<Rightarrow> pyval \<Rightarrow> world \<Rightarrow> py_error option \<times> world" where
  "download_file E file_path url w =
     (let r = stream_to_file E file_path url (listing w)
      in (fst r, \<lparr> listing = snd r, requests = requests w @ [Download file_path url] \<rparr>))"

subsection \<open>\<^verbatim>\<open>_download_images\<close> (lines 135-155)\<close>

text \<open>The identifier taken from a cache entry: \<^verbatim>\<open>entry.replace('.jpg', '')\<close>.\<close>

definition cached_id :: "string \<Rightarrow> string" where
  "cached_id entry = py_replace ''.jpg'' [] entry"

definition downloaded_ids :: "string list \<Rightarrow> string list" where
  "downloaded_ids entries = map cached_id entries"

text \<open>Lines 136-142.\<close>

definition missing_ids :: "bool \<Rightarrow> string list \<Rightarrow> string list \<Rightarrow> string set" where
  "missing_ids override expected entries =
     set expected - set (if \<not> override then downloaded_ids entries else [])"

text \<open>
  The order in which \<^verbatim>\<open>','.join(missing_ids)\<close> (line 147) takes the identifiers of the
  missing set. Whatever the implementation chooses, iterating a set gives every element
  exactly once: a choice that is not such an enumeration is replaced by the order of the
  expected identifiers.
\<close>

definition missing_order :: "env \<Rightarrow> bool \<Rightarrow> string list \<Rightarrow> string list \<Rightarrow> string list" where
  "missing_order E override expected entries =
     (let missing = missing_ids override expected entries;
          chosen = set_order E expected (if \<not> override then downloaded_ids entries else [])
      in if distinct chosen \<and> set chosen = missing then chosen
         else remdups (filter (\<lambda>i. i \<in> missing) expected))"

text \<open>
  The loop of lines 150-155. \<^verbatim>\<open>photo_data['largeUri']\<close> is read for the test and again
  for \<open>url\<close>; the second read gives the first one's value.
\<close>

fun download_loop :: "env \<Rightarrow> string \<Rightarrow> pyval list \<Rightarrow> world \<Rightarrow> py_error option \<times> world" where
  "download_loop E cd [] w = (None, w)"
| "download_loop E cd (photo_data # rest) w =
     (case subscript photo_data ''largeUri'' of
        Inl e \<Rightarrow> (Some e, w)
      | Inr url \<Rightarrow>
          if truthy url then
            (case subscript photo_data ''individualId'' of
               Inl e \<Rightarrow> (Some e, w)
             | Inr i \<Rightarrow>
                 (let file_path = path_join cd (py_str (repr E) i @ ''.jpg'');
                      r = download_file E file_path url w
                  in case fst r of
                       Some e \<Rightarrow> (Some e, snd r)
                     | None \<Rightarrow> download_loop E cd rest (snd r)))
          else download_loop E cd rest w)"

definition download_images :: "env \<Rightarrow> bool \<Rightarrow> fetcher \<Rightarrow> world \<Rightarrow> py_error option \<times> world" where
  "download_images E override f w =
     (let order = missing_order E override (ids f) (listing w);
          w1 = w\<lparr> requests := requests w @ [PhotoUrl order] \<rparr>
      in case photo_url E (member_text order) of
           Inl e \<Rightarrow> (Some e, w1)
         | Inr data \<Rightarrow>
             (case py_iter data of
                Inl e \<Rightarrow> (Some e, w1)
              | Inr entries \<Rightarrow> download_loop E (cache_dir f) entries w1))"

subsection \<open>\<^verbatim>\<open>load_member_images\<close> (lines 120-133)\<close>

text \<open>The loop of lines 130-133.\<close>

fun assign_paths :: "string \<Rightarrow> string list \<Rightarrow> (string \<times> member) list \<Rightarrow> (string \<times> member) list" where
  "assign_paths cd [] d = d"
| "assign_paths cd (i # rest) d =
     (case dict_get (=) d i of
        Some m \<Rightarrow>
          assign_paths cd rest
            (dict_set (=) i (m\<lparr> image_path := Some (path_join cd (i @ ''.jpg'')) \<rparr>) d)
      | None \<Rightarrow> assign_paths cd rest d)"

text \<open>
  A cache directory that does not exist is created empty (lines 121-122), so its listing
  is then \<open>[]\<close>; a \<open>world\<close> has a listing in either case.
\<close>

definition load_member_images ::
  "env \<Rightarrow> bool \<Rightarrow> bool \<Rightarrow> fetcher \<Rightarrow> world \<Rightarrow> py_error option \<times> fetcher \<times> world" where
  "load_member_images E download override f w =
     (let r = (if download then download_images E override f w else (None, w))
      in case fst r of
           Some e \<Rightarrow> (Some e, f, snd r)
         | None \<Rightarrow>
             (None,
              f\<lparr> members := assign_paths (cache_dir f) (downloaded_ids (listing (snd r))) (members f) \<rparr>,
              snd r))"

section \<open>The specification's words\<close>

text \<open>
  The display name as the specification describes it: the name is split on commas, each
  part is trimmed of whitespace, the parts are reversed and joined with single spaces.
  Whitespace is written out character by character: tab, line feed, vertical tab, form
  feed, carriage return, the four separators 28 to 31, space, next line and no-break
  space.
\<close>

definition whitespace :: "char list" where
  "whitespace =
     [CHR 0x09, CHR 0x0A, CHR 0x0B, CHR 0x0C, CHR 0x0D, CHR 0x1C, CHR 0x1D, CHR 0x1E,
      CHR 0x1F, CHR 0x20, CHR 0x85, CHR 0xA0]"

function parts_on :: "char \<Rightarrow> string \<Rightarrow> string list" where
  "parts_on sep s =
     (case dropWhile (\<lambda>c. c \<noteq> sep) s of
        [] \<Rightarrow> [s]
      | _ # rest \<Rightarrow> takeWhile (\<lambda>c. c \<noteq> sep) s # parts_on sep rest)"
  by pat_completeness auto
termination
proof (relation "measure (\<lambda>(sep, s). length s)")
  show "wf (measure (\<lambda>(sep, s). length s))" by simp
next
  fix sep :: char and s :: string and x rest
  assume "dropWhile (\<lambda>c. c \<noteq> sep) s = x # rest"
  then have "length (x # rest) \<le> length s"
    using length_dropWhile_le [of "\<lambda>c. c \<noteq> sep" s] by simp
  then show "((sep, rest), (sep, s)) \<in> measure (\<lambda>(sep, s). length s)" by simp
qed

declare parts_on.simps [simp del]

definition trim :: "string \<Rightarrow> string" where
  "trim s =
     rev (dropWhile (\<lambda>c. c \<in> set whitespace)
       (rev (dropWhile (\<lambda>c. c \<in> set whitespace) s)))"

definition spaced :: "string list \<Rightarrow> string" where
  "spaced parts = (case parts of [] \<Rightarrow> [] | p # ps \<Rightarrow> p @ concat (map (\<lambda>q. CHR '' '' # q) ps))"

definition display_name :: "string \<Rightarrow> string" where
  "display_name s = spaced (rev (map trim (parts_on CHR '','' s)))"

text \<open>
  The cached identifier as the specification describes it: the file name with the fixed
  extension stripped from its end.
\<close>

definition ends_with :: "string \<Rightarrow> string \<Rightarrow> bool" where
  "ends_with suf s = (length suf \<le> length s \<and> drop (length s - length suf) s = suf)"

definition strip_extension :: "string \<Rightarrow> string" where
  "strip_extension entry =
     (if ends_with ''.jpg'' entry then take (length entry - 4) entry else entry)"

text \<open>\<open>occurs p s\<close>: the string \<open>p\<close> occurs somewhere in \<open>s\<close>.\<close>

fun occurs :: "string \<Rightarrow> string \<Rightarrow> bool" where
  "occurs p [] = (p = [])"
| "occurs p (c # cs) = (take (length p) (c # cs) = p \<or> occurs p cs)"

text \<open>
  The downloads the loop of lines 150-155 is to make for a list of metadata entries, in
  order: one for each entry with a true \<^verbatim>\<open>largeUri\<close>, into the file named after the
  entry's identifier. \<open>uri\<close> and \<open>ident\<close> read the two fields of an entry.
\<close>

definition downloads_of ::
  "env \<Rightarrow> string \<Rightarrow> (pyval \<Rightarrow> pyval) \<Rightarrow> (pyval \<Rightarrow> pyval) \<Rightarrow> pyval list \<Rightarrow> request list" where
  "downloads_of E cd uri ident entries =
     map (\<lambda>p. Download (path_join cd (py_str (repr E) (ident p) @ ''.jpg'')) (uri p))
       (filter (\<lambda>p. truthy (uri p)) entries)"

section \<open>Observations\<close>

text \<open>The identifier sets of the metadata requests in a log, oldest first.\<close>

fun photo_url_sets :: "request list \<Rightarrow> string set list" where
  "photo_url_sets [] = []"
| "photo_url_sets (PhotoUrl order # rs) = set order # photo_url_sets rs"
| "photo_url_sets (Download p u # rs) = photo_url_sets rs"

fun is_download :: "request \<Rightarrow> bool" where
  "is_download (Download p u) = True"
| "is_download (PhotoUrl order) = False"

definition image_paths :: "fetcher \<Rightarrow> (string \<times> string option) list" where
  "image_paths f = map (\<lambda>kv. (fst kv, image_path (snd kv))) (members f)"

definition callings_of :: "py_error + fetcher \<Rightarrow> (string \<times> pyval) list" where
  "callings_of r =
     (case r of Inl e \<Rightarrow> [] | Inr f \<Rightarrow> map (\<lambda>kv. (fst kv, calling (snd kv))) (members f))"

definition field_or_none :: "string \<Rightarrow> pyval \<Rightarrow> pyval" where
  "field_or_none k p = (case subscript p k of Inl e \<Rightarrow> PNone | Inr v \<Rightarrow> v)"

text \<open>
  What reading a metadata entry raises, before anything is downloaded: the error of
  \<^verbatim>\<open>photo_data['largeUri']\<close>, or, when the URI is true, that of
  \<^verbatim>\<open>photo_data['individualId']\<close>. An entry is complete when reading it raises nothing.
\<close>

definition entry_error :: "pyval \<Rightarrow> py_error option" where
  "entry_error p =
     (case subscript p ''largeUri'' of
        Inl e \<Rightarrow> Some e
      | Inr u \<Rightarrow>
          if truthy u
          then (case subscript p ''individualId'' of Inl e \<Rightarrow> Some e | Inr i \<Rightarrow> None)
          else None)"

definition complete :: "pyval \<Rightarrow> bool" where
  "complete p = (entry_error p = None)"

text \<open>The file an entry is downloaded to, and the downloads of a list of entries.\<close>

definition entry_path :: "env \<Rightarrow> string \<Rightarrow> pyval \<Rightarrow> string" where
  "entry_path E cd p =
     path_join cd (py_str (repr E) (field_or_none ''individualId'' p) @ ''.jpg'')"

definition entry_downloads :: "env \<Rightarrow> string \<Rightarrow> pyval list \<Rightarrow> request list" where
  "entry_downloads E cd entries =
     downloads_of E cd (field_or_none ''largeUri'') (field_or_none ''individualId'') entries"

text \<open>
  The error of the first incomplete entry of a list, if there is one; and the condition
  that no download of an entry of a list raises, whatever the cache directory holds.
\<close>

definition first_error :: "pyval list \<Rightarrow> py_error option" where
  "first_error entries =
     (case dropWhile complete entries of [] \<Rightarrow> None | p # rest \<Rightarrow> entry_error p)"

definition streams_ok :: "env \<Rightarrow> string \<Rightarrow> pyval list \<Rightarrow> bool" where
  "streams_ok E cd entries =
     (\<forall>p\<in>set entries. truthy (field_or_none ''largeUri'' p) \<longrightarrow>
        (\<forall>l. fst (stream_to_file E (entry_path E cd p) (field_or_none ''largeUri'' p) l) = None))"

section \<open>Sample data\<close>

definition john :: member where
  "john = \<lparr> id' = PInt 1, member_number = PStr ''000-1'', given_name = PStr ''John'',
     surname = PStr ''Smith'', preferred_name = PStr ''Smith, John'',
     email = PStr ''john@example.org'', phone = PNone,
     address_parts = [PStr ''1 Main St''], calling = PNone, image_path = None \<rparr>"

definition jane :: member where
  "jane = \<lparr> id' = PInt 2, member_number = PStr ''000-2'', given_name = PStr ''Jane'',
     surname = PStr ''Doe'', preferred_name = PStr ''Doe, Jane, Q'',
     email = PNone, phone = PStr ''555-0100'',
     address_parts = [], calling = PStr ''Bishop'', image_path = None \<rparr>"

definition head_of_house :: "pyval \<Rightarrow> string \<Rightarrow> pyval" where
  "head_of_house i name =
     PDict [(''individualId'', i), (''memberId'', PStr ''000''),
            (''givenName1'', PStr ''J''), (''surname'', PStr ''S''),
            (''preferredName'', PStr name), (''email'', PNone),
            (''phone'', PStr ''555'')]"

definition household :: "pyval \<Rightarrow> string \<Rightarrow> pyval" where
  "household i name =
     PDict [(''headOfHouse'', head_of_house i name),
            (''desc1'', PStr ''1 Main St''), (''desc2'', PStr []), (''desc3'', PNone),
            (''desc4'', PStr ''Springfield''), (''desc5'', PStr [])]"

definition household_without_desc3 :: pyval where
  "household_without_desc3 =
     PDict [(''headOfHouse'', head_of_house (PInt 1) ''Smith, John''),
            (''desc1'', PStr ''1 Main St''), (''desc2'', PStr []),
            (''desc4'', PStr ''Springfield''), (''desc5'', PStr [])]"

text \<open>
  A payload with two households and one calling, for the identifier \<open>k\<close>, named
  \<^verbatim>\<open>Bishop\<close>.
\<close>

definition payload_of :: "pyval \<Rightarrow> pyval \<Rightarrow> pyval \<Rightarrow> pyval" where
  "payload_of i1 i2 k =
     PDict [(''households'', PList [household i1 ''Smith, John'', household i2 ''Doe, Jane'']),
            (''callings'',
               PList [PDict [(''individualId'', k), (''callingName'', PStr ''Bishop'')]])]"

definition empty_fetcher :: fetcher where
  "empty_fetcher = \<lparr> cache_dir = ''/out/cache'', members = [], ids = [] \<rparr>"

text \<open>
  A service that knows a photo for the identifiers 1 and 2, a file system on which every
  download succeeds and leaves its file in the cache directory, and sets that iterate in
  the order in which their elements were first put in.
\<close>

definition file_name :: "string \<Rightarrow> string" where
  "file_name path = rev (takeWhile (\<lambda>c. c \<noteq> CHR ''/'') (rev path))"

definition photo_entry :: "string \<Rightarrow> pyval" where
  "photo_entry i =
     PDict [(''individualId'', PStr i), (''largeUri'', PStr (''https://photos.example/'' @ i))]"

definition insertion_order :: "string list \<Rightarrow> string list \<Rightarrow> string list" where
  "insertion_order expected downloaded =
     filter (\<lambda>i. i \<notin> set downloaded) (rev (remdups (rev expected)))"

definition demo_env :: env where
  "demo_env = \<lparr> repr = (\<lambda>v. []),
     set_order = insertion_order,
     photo_url =
       (\<lambda>text. Inr (PList (map photo_entry
          (filter (\<lambda>i. i \<in> set (py_split CHR '','' text)) [''1'', ''2''])))),
     stream_to_file =
       (\<lambda>path url l. (None, if file_name path \<in> set l then l else l @ [file_name path])) \<rparr>"

definition demo_fetcher :: fetcher where
  "demo_fetcher =
     \<lparr> cache_dir = ''/out/cache'', members = [(''1'', john), (''2'', jane)], ids = [''1'', ''2''] \<rparr>"

definition demo_world :: world where
  "demo_world = \<lparr> listing = [''1.jpg''], requests = [] \<rparr>"

text \<open>Two runs of \<^verbatim>\<open>load_member_images(True, False)\<close>, one after the other.\<close>

definition first_run :: "py_error option \<times> fetcher \<times> world" where
  "first_run = load_member_images demo_env True False demo_fetcher demo_world"

definition second_run :: "py_error option \<times> fetcher \<times> world" where
  "second_run =
     load_member_images demo_env True False (fst (snd first_run)) (snd (snd first_run))"

text \<open>A cache directory with a file that has no extension, and one with a doubled extension.\<close>

definition bare_world :: world where
  "bare_world = \<lparr> listing = [''1''], requests = [] \<rparr>"

definition doubled_world :: world where
  "doubled_world = \<lparr> listing = [''1.jpg.jpg''], requests = [] \<rparr>"

definition stray_world :: world where
  "stray_world = \<lparr> listing = [''1.jpg'', ''9.jpg''], requests = [] \<rparr>"

text \<open>
  Two lists of expected identifiers with the same elements, one with a duplicate, and an
  empty cache directory.
\<close>

definition repeated_fetcher :: fetcher where
  "repeated_fetcher = demo_fetcher\<lparr> ids := [''1'', ''2'', ''1''] \<rparr>"

definition swapped_fetcher :: fetcher where
  "swapped_fetcher = demo_fetcher\<lparr> ids := [''2'', ''1''] \<rparr>"

definition empty_world :: world where
  "empty_world = \<lparr> listing = [], requests = [] \<rparr>"


definition sample_entries :: "pyval list" where
  "sample_entries =
     [photo_entry ''1'',
      PDict [(''individualId'', PInt 2), (''largeUri'', PStr [])],
      PDict [(''individualId'', PInt 3), (''largeUri'', PNone)],
      photo_entry ''4'']"

text \<open>The same entries, followed by one without a URI key and one more photo.\<close>

definition keyless_entry :: pyval where
  "keyless_entry = PDict [(''individualId'', PInt 5)]"

definition mixed_entries :: "pyval list" where
  "mixed_entries = sample_entries @ [keyless_entry, photo_entry ''6'']"

section \<open>The display name\<close>

lemma parts_on_Nil: "parts_on sep [] = [[]]"
  by (simp add: parts_on.simps)

lemma parts_on_Cons:
  "parts_on sep (c # cs) =
     (if c = sep then [] # parts_on sep cs
      else (case parts_on sep cs of p # ps \<Rightarrow> (c # p) # ps | [] \<Rightarrow> []))"
proof (cases "c = sep")
  case True
  then show ?thesis by (subst parts_on.simps) simp
next
  case False
  then have a: "parts_on sep (c # cs) =
      (case dropWhile (\<lambda>c. c \<noteq> sep) cs of
         [] \<Rightarrow> [c # cs]
       | _ # rest \<Rightarrow> (c # takeWhile (\<lambda>c. c \<noteq> sep) cs) # parts_on sep rest)"
    by (subst parts_on.simps) (simp cong: list.case_cong)
  have b: "parts_on sep cs =
      (case dropWhile (\<lambda>c. c \<noteq> sep) cs of
         [] \<Rightarrow> [cs]
       | _ # rest \<Rightarrow> takeWhile (\<lambda>c. c \<noteq> sep) cs # parts_on sep rest)"
    by (rule parts_on.simps)
  show ?thesis
  proof (cases "dropWhile (\<lambda>c. c \<noteq> sep) cs")
    case Nil
    from False show ?thesis unfolding a b Nil by simp
  next
    case (Cons x rest)
    from False show ?thesis unfolding a b Cons by simp
  qed
qed

lemma parts_on_not_Nil: "parts_on sep s \<noteq> []"
  by (induction s) (auto simp: parts_on_Nil parts_on_Cons split: list.splits)

text \<open>The parts put together again with the separator are the string, and no part holds one.\<close>

lemma join_parts_on: "py_join [sep] (parts_on sep s) = s"
proof (induction s)
  case Nil
  show ?case by (simp add: parts_on_Nil)
next
  case (Cons c cs)
  obtain p ps where ps: "parts_on sep cs = p # ps"
    using parts_on_not_Nil [of sep cs] by (cases "parts_on sep cs") auto
  with Cons show ?case
    by (cases ps) (auto simp: parts_on_Cons)
qed

lemma parts_on_no_sep: "p \<in> set (parts_on sep s) \<Longrightarrow> sep \<notin> set p"
proof (induction s arbitrary: p)
  case Nil
  then show ?case by (simp add: parts_on_Nil)
next
  case (Cons c cs)
  obtain q qs where q: "parts_on sep cs = q # qs"
    using parts_on_not_Nil [of sep cs] by (cases "parts_on sep cs") auto
  then have "sep \<notin> set q" and "\<forall>r\<in>set qs. sep \<notin> set r"
    using Cons.IH by simp_all
  with Cons.prems q show ?case
    by (auto simp: parts_on_Cons split: if_splits)
qed

lemma split_scan_parts:
  "split_scan sep cur s = (case parts_on sep s of p # ps \<Rightarrow> (rev cur @ p) # ps | [] \<Rightarrow> [])"
proof (induction s arbitrary: cur)
  case Nil
  show ?case by (simp add: parts_on_Nil)
next
  case (Cons c cs)
  show ?case
    by (simp add: parts_on_Cons Cons.IH split: list.splits)
qed

lemma py_split_parts: "py_split sep s = parts_on sep s"
  using parts_on_not_Nil [of sep s]
  by (simp add: py_split_def split_scan_parts split: list.splits)

lemma lscan_eq:
  "i \<le> length s \<Longrightarrow> lscan s i = i + length (takeWhile py_isspace (drop i s))"
proof (induction s i rule: lscan.induct)
  case (1 s i)
  show ?case
  proof (cases "i < length s \<and> py_isspace (s ! i)")
    case True
    then have d: "drop i s = s ! i # drop (Suc i) s"
      by (simp add: Cons_nth_drop_Suc)
    from True 1 have "lscan s (Suc i) = Suc i + length (takeWhile py_isspace (drop (Suc i) s))"
      by simp
    with True d show ?thesis by (simp add: lscan.simps [of s i])
  next
    case False
    show ?thesis
    proof (cases "i < length s")
      case True
      with False have "\<not> py_isspace (s ! i)" by simp
      moreover from True have "drop i s = s ! i # drop (Suc i) s"
        by (simp add: Cons_nth_drop_Suc)
      ultimately show ?thesis using False by (simp add: lscan.simps [of s i])
    next
      case False
      then show ?thesis by (simp add: lscan.simps [of s i])
    qed
  qed
qed

lemma rscan_eq:
  "i \<le> j \<Longrightarrow> j \<le> length s \<Longrightarrow>
     rscan s i j = i + length (dropWhile py_isspace (rev (take (j - i) (drop i s))))"
proof (induction s i j rule: rscan.induct)
  case (1 s i j)
  show ?case
  proof (cases "i < j")
    case False
    with 1 show ?thesis by (subst rscan.simps) simp
  next
    case True
    define k where "k = j - 1"
    from True 1 have k: "j = Suc k" "i \<le> k" "k < length s" by (simp_all add: k_def)
    have t: "take (j - i) (drop i s) = take (k - i) (drop i s) @ [s ! k]"
      using k by (simp add: Suc_diff_le take_Suc_conv_app_nth)
    show ?thesis
    proof (cases "py_isspace (s ! k)")
      case sp: True
      with True k 1
      have "rscan s i k = i + length (dropWhile py_isspace (rev (take (k - i) (drop i s))))"
        by simp
      with sp True k t show ?thesis by (subst rscan.simps) simp
    next
      case nsp: False
      with True k t show ?thesis by (subst rscan.simps) simp
    qed
  qed
qed

lemma take_rev_dropWhile:
  "take (length (dropWhile P (rev t))) t = rev (dropWhile P (rev t))"
proof -
  have "rev t = takeWhile P (rev t) @ dropWhile P (rev t)" by simp
  then have "t = rev (dropWhile P (rev t)) @ rev (takeWhile P (rev t))"
    by (metis rev_append rev_rev_ident)
  then have "take (length (rev (dropWhile P (rev t)))) t = rev (dropWhile P (rev t))"
    by (metis append_eq_conv_conj)
  then show ?thesis by simp
qed

text \<open>The code's test for whitespace and the list of the specification agree.\<close>

lemma whitespace_codes:
  "map char_of [9, 10, 11, 12, 13, 28, 29, 30, 31, 32, 133, 160 :: nat] = whitespace"
  by code_simp

lemma py_isspace_whitespace: "py_isspace c \<longleftrightarrow> c \<in> set whitespace"
proof
  assume "py_isspace c"
  then have "of_char c \<in> set [9, 10, 11, 12, 13, 28, 29, 30, 31, 32, 133, 160 :: nat]"
    unfolding py_isspace_def Let_def by auto
  then have "char_of (of_char c :: nat) \<in>
      set (map char_of [9, 10, 11, 12, 13, 28, 29, 30, 31, 32, 133, 160 :: nat])"
    unfolding set_map by (rule imageI)
  then show "c \<in> set whitespace"
    unfolding whitespace_codes by simp
next
  assume "c \<in> set whitespace"
  then show "py_isspace c"
    by (auto simp: whitespace_def py_isspace_def)
qed

lemma trim_alt: "trim s = rev (dropWhile py_isspace (rev (dropWhile py_isspace s)))"
proof -
  have "(\<lambda>c. c \<in> set whitespace) = py_isspace"
    by (rule ext) (simp add: py_isspace_whitespace)
  then show ?thesis by (simp add: trim_def)
qed

lemma py_strip_trim: "py_strip s = trim s"
proof -
  define i where "i = lscan s 0"
  have i: "i = length (takeWhile py_isspace s)"
    using lscan_eq [of 0 s] by (simp add: i_def)
  then have le: "i \<le> length s" by (simp add: length_takeWhile_le)
  have d: "drop i s = dropWhile py_isspace s"
    unfolding i by (rule dropWhile_eq_drop [symmetric])
  have "take (length s - i) (drop i s) = drop i s" by simp
  then have "rscan s i (length s) = i + length (dropWhile py_isspace (rev (dropWhile py_isspace s)))"
    using rscan_eq [of i "length s" s] le d by simp
  then show ?thesis
    using d take_rev_dropWhile [of py_isspace "dropWhile py_isspace s"]
    by (simp add: py_strip_def trim_alt i_def [symmetric])
qed

text \<open>What is trimmed off is whitespace, and what is left neither starts nor ends with it.\<close>

lemma trim_decomposition:
  "\<exists>l r. s = l @ trim s @ r \<and> (\<forall>c\<in>set l. py_isspace c) \<and> (\<forall>c\<in>set r. py_isspace c)"
proof -
  define t where "t = dropWhile py_isspace s"
  have "s = takeWhile py_isspace s @ t" by (simp add: t_def)
  moreover have "rev t = takeWhile py_isspace (rev t) @ dropWhile py_isspace (rev t)" by simp
  then have "t = rev (dropWhile py_isspace (rev t)) @ rev (takeWhile py_isspace (rev t))"
    by (metis rev_append rev_rev_ident)
  ultimately have "s = takeWhile py_isspace s @ trim s @ rev (takeWhile py_isspace (rev t))"
    by (simp add: trim_alt t_def)
  moreover have "\<forall>c\<in>set (takeWhile py_isspace s). py_isspace c"
    by (auto dest: set_takeWhileD)
  moreover have "\<forall>c\<in>set (rev (takeWhile py_isspace (rev t))). py_isspace c"
    by (auto dest: set_takeWhileD)
  ultimately show ?thesis by blast
qed

lemma trim_ends: "trim s \<noteq> [] \<Longrightarrow> \<not> py_isspace (hd (trim s)) \<and> \<not> py_isspace (last (trim s))"
proof -
  assume ne: "trim s \<noteq> []"
  define t where "t = dropWhile py_isspace s"
  define u where "u = dropWhile py_isspace (rev t)"
  have tr: "trim s = rev u" by (simp add: trim_alt t_def u_def)
  with ne have u: "u \<noteq> []" by simp
  then have "\<not> py_isspace (hd u)" unfolding u_def by (rule hd_dropWhile)
  then have l: "\<not> py_isspace (last (trim s))" using u tr by (simp add: last_rev)
  have "rev t = takeWhile py_isspace (rev t) @ u" by (simp add: u_def)
  then have t: "t = rev u @ rev (takeWhile py_isspace (rev t))"
    by (metis rev_append rev_rev_ident)
  with u have "t \<noteq> []" by auto
  then have "\<not> py_isspace (hd t)" unfolding t_def by (rule hd_dropWhile)
  moreover from t u have "hd t = hd (rev u)" by (metis hd_append2 rev_is_Nil_conv)
  ultimately show ?thesis using l tr by simp
qed

lemma py_join_concat:
  "py_join sep parts = (case parts of [] \<Rightarrow> [] | p # ps \<Rightarrow> p @ concat (map (\<lambda>q. sep @ q) ps))"
  by (induction sep parts rule: py_join.induct) simp_all

lemma py_join_spaced: "py_join '' '' parts = spaced parts"
proof -
  have h: "(\<lambda>q. '' '' @ q) = (\<lambda>q. CHR '' '' # q)" by simp
  show ?thesis by (simp add: py_join_concat spaced_def h split: list.splits)
qed

lemma display_name_smith: "display_name ''Smith, John'' = ''John Smith''"
  by code_simp

lemma display_name_doe: "display_name ''Doe, Jane, Q'' = ''Q Jane Doe''"
  by code_simp

text \<open>A no-break space after the comma, and a next-line character at the end, are trimmed.\<close>

lemma display_name_nbsp:
  "display_name (''Smith,'' @ [CHR 0xA0] @ ''John'' @ [CHR 0x85]) = ''John Smith''"
  by code_simp

text \<open>
  C6. For every string \<open>s\<close>, a member whose preferred name is \<open>s\<close> has as its formatted
  name the display name of the specification: \<open>s\<close> split on commas, each part trimmed of
  whitespace, the parts reversed and joined with single spaces. \<^verbatim>\<open>Smith, John\<close> gives
  \<^verbatim>\<open>John Smith\<close>, and \<^verbatim>\<open>Doe, Jane, Q\<close> gives \<^verbatim>\<open>Q Jane Doe\<close>; a no-break space
  or a next-line character around a part is trimmed like a space.
\<close>

theorem formatted_name_display_name:
  "formatted_name (m\<lparr> preferred_name := PStr s \<rparr>) = Inr (display_name s)
   \<and> formatted_name (m\<lparr> preferred_name := PStr ''Smith, John'' \<rparr>) = Inr ''John Smith''
   \<and> formatted_name (m\<lparr> preferred_name := PStr ''Doe, Jane, Q'' \<rparr>) = Inr ''Q Jane Doe''
   \<and> formatted_name (m\<lparr> preferred_name := PStr (''Smith,'' @ [CHR 0xA0] @ ''John'' @ [CHR 0x85]) \<rparr>)
       = Inr ''John Smith''"
proof -
  have strip: "py_strip = trim" by (rule ext) (rule py_strip_trim)
  have g: "formatted_name (n\<lparr> preferred_name := PStr t \<rparr>) = Inr (display_name t)" for n t
    by (simp add: formatted_name_def display_name_def py_split_parts strip py_join_spaced)
  show ?thesis
    by (simp only: g display_name_smith display_name_doe display_name_nbsp simp_thms)
qed

section \<open>The display calling\<close>

text \<open>
  C8, as the code has it. The formatted calling is the stored calling when that is a
  non-empty string, and the placeholder \<^verbatim>\<open><i>No calling</i>\<close> when the calling is absent
  or the empty string.
\<close>

theorem formatted_calling_amended:
  "formatted_calling (m\<lparr> calling := PStr (c # cs) \<rparr>) = PStr (c # cs)
   \<and> formatted_calling (m\<lparr> calling := PNone \<rparr>) = PStr ''<i>No calling</i>''
   \<and> formatted_calling (m\<lparr> calling := PStr [] \<rparr>) = PStr ''<i>No calling</i>''"
  by (simp add: formatted_calling_def)

text \<open>
  C8 as stated fails for a member whose calling is present and empty: the result is the
  placeholder, not the stored string.
\<close>

theorem formatted_calling_counterexample:
  "calling (john\<lparr> calling := PStr [] \<rparr>) = PStr []
   \<and> formatted_calling (john\<lparr> calling := PStr [] \<rparr>) = PStr ''<i>No calling</i>''"
  by (simp add: formatted_calling_def)

section \<open>The household record\<close>

lemma on_ok_Inr_iff: "on_ok x f = Inr y \<longleftrightarrow> (\<exists>a. x = Inr a \<and> f a = Inr y)"
  by (cases x) simp_all

text \<open>
  C5, as the code has it. \<^verbatim>\<open>from_json\<close> produces a member exactly for the records that
  carry all five description keys (with any value, \<^verbatim>\<open>None\<close> and the empty string
  included) and a head of house with its seven keys. The member's id is then the head of
  house's \<^verbatim>\<open>individualId\<close>, and its address parts are the five description values
  without the false ones (\<^verbatim>\<open>None\<close>, empty), in their order.
\<close>

theorem from_json_amended:
  "from_json data c = Inr m \<longleftrightarrow>
     (\<exists>d1 d2 d3 d4 d5 h v1 v2 v3 v4 v5 v6 v7.
        subscript data ''desc1'' = Inr d1 \<and> subscript data ''desc2'' = Inr d2 \<and>
        subscript data ''desc3'' = Inr d3 \<and> subscript data ''desc4'' = Inr d4 \<and>
        subscript data ''desc5'' = Inr d5 \<and> subscript data ''headOfHouse'' = Inr h \<and>
        subscript h ''individualId'' = Inr v1 \<and> subscript h ''memberId'' = Inr v2 \<and>
        subscript h ''givenName1'' = Inr v3 \<and> subscript h ''surname'' = Inr v4 \<and>
        subscript h ''preferredName'' = Inr v5 \<and> subscript h ''email'' = Inr v6 \<and>
        subscript h ''phone'' = Inr v7 \<and>
        m = \<lparr> id' = v1, member_number = v2, given_name = v3, surname = v4,
              preferred_name = v5, email = v6, phone = v7,
              address_parts = filter truthy [d1, d2, d3, d4, d5], calling = c,
              image_path = None \<rparr>)"
  unfolding from_json_def head_field_def on_ok_Inr_iff Let_def
  by (auto simp del: filter.simps)

text \<open>The theorem at a record with an empty and an absent (\<^verbatim>\<open>None\<close>) description.\<close>

theorem from_json_amended_witness:
  "from_json (household (PInt 1) ''Smith, John'') (PStr ''Bishop'') =
     Inr \<lparr> id' = PInt 1, member_number = PStr ''000'', given_name = PStr ''J'',
           surname = PStr ''S'', preferred_name = PStr ''Smith, John'', email = PNone,
           phone = PStr ''555'',
           address_parts = [PStr ''1 Main St'', PStr ''Springfield''],
           calling = PStr ''Bishop'', image_path = None \<rparr>"
  using from_json_amended [of "household (PInt 1) ''Smith, John''" "PStr ''Bishop''"]
  by (simp add: household_def head_of_house_def)

text \<open>
  C5 as stated fails for a record from which a description field is absent: reading the
  key raises KeyError and no member is produced.
\<close>

theorem from_json_counterexample:
  "from_json household_without_desc3 PNone = Inl (KeyError ''desc3'')"
  by (simp add: from_json_def household_without_desc3_def)

section \<open>The calling index\<close>

text \<open>
  C2 at a payload whose identifiers are integers, as the annotation \<^verbatim>\<open>id: int\<close> has
  them: the index is keyed by the integer 1 (line 105), the lookup asks for the string
  \<^verbatim>\<open>'1'\<close> (line 110), and no member gets a calling.
\<close>

theorem load_members_int_ids:
  "callings_of (load_members rp (payload_of (PInt 1) (PInt 2) (PInt 1)) empty_fetcher)
     = [(''1'', PNone), (''2'', PNone)]"
  by (simp add: callings_of_def load_members_def payload_of_def household_def
      head_of_house_def empty_fetcher_def from_json_def head_field_def get_or_none_def
      py_eq_def show_int_def show_nat.simps digit_def)

text \<open>With string identifiers throughout, the member 1 is the Bishop.\<close>

lemma load_members_str_ids:
  "callings_of (load_members rp (payload_of (PStr ''1'') (PStr ''2'') (PStr ''1'')) empty_fetcher)
     = [(''1'', PStr ''Bishop''), (''2'', PNone)]"
  by (simp add: callings_of_def load_members_def payload_of_def household_def
      head_of_house_def empty_fetcher_def from_json_def head_field_def get_or_none_def
      py_eq_def)

section \<open>Cached identifiers\<close>

lemma occurs_iff: "occurs p s \<longleftrightarrow> (\<exists>a b. s = a @ p @ b)"
proof (induction s)
  case Nil
  show ?case by auto
next
  case (Cons c cs)
  show ?case
  proof
    assume "occurs p (c # cs)"
    then consider "take (length p) (c # cs) = p" | "occurs p cs" by auto
    then show "\<exists>a b. c # cs = a @ p @ b"
    proof cases
      case 1
      then have "c # cs = [] @ p @ drop (length p) (c # cs)"
        by (metis append_Nil append_take_drop_id)
      then show ?thesis by blast
    next
      case 2
      with Cons.IH obtain a b where "cs = a @ p @ b" by blast
      then have "c # cs = (c # a) @ p @ b" by simp
      then show ?thesis by blast
    qed
  next
    assume "\<exists>a b. c # cs = a @ p @ b"
    then obtain a b where ab: "c # cs = a @ p @ b" by blast
    show "occurs p (c # cs)"
    proof (cases a)
      case Nil
      with ab have "take (length p) (c # cs) = p" by simp
      then show ?thesis by simp
    next
      case (Cons x a')
      with ab have "cs = a' @ p @ b" by simp
      with Cons.IH have "occurs p cs" by blast
      then show ?thesis by simp
    qed
  qed
qed

lemma replace_no_occurrence: "\<not> occurs ''.jpg'' s \<Longrightarrow> py_replace ''.jpg'' [] s = s"
  by (induction s) auto

lemma replace_at_occurrence:
  "py_replace ''.jpg'' [] (a @ ''.jpg'' @ b) = py_replace ''.jpg'' [] a @ py_replace ''.jpg'' [] b"
proof (induction a rule: length_induct)
  case (1 a)
  show ?case
  proof (cases a)
    case Nil
    then show ?thesis by simp
  next
    case a: (Cons c cs)
    have ih_cs: "py_replace ''.jpg'' [] (cs @ ''.jpg'' @ b)
        = py_replace ''.jpg'' [] cs @ py_replace ''.jpg'' [] b"
      using 1 a by simp
    show ?thesis
    proof (cases "\<exists>x y z rest. cs = x # y # z # rest")
      case True
      then obtain x y z rest where cs: "cs = x # y # z # rest" by blast
      have ih_rest: "py_replace ''.jpg'' [] (rest @ ''.jpg'' @ b)
          = py_replace ''.jpg'' [] rest @ py_replace ''.jpg'' [] b"
        using 1 a cs by simp
      show ?thesis
      proof (cases "[c, x, y, z] = ''.jpg''")
        case True
        with a cs ih_rest show ?thesis by simp
      next
        case False
        with a cs ih_cs show ?thesis by auto
      qed
    next
      case False
      then consider "cs = []" | x where "cs = [x]" | x y where "cs = [x, y]"
        by (metis list.exhaust)
      then show ?thesis
      proof cases
        case 1
        with a ih_cs show ?thesis by auto
      next
        case 2
        with a ih_cs show ?thesis by auto
      next
        case 3
        with a ih_cs show ?thesis by auto
      qed
    qed
  qed
qed

text \<open>
  C9, as the code has it. The cached identifier of a file name is the name with every
  occurrence of \<^verbatim>\<open>.jpg\<close> taken out, wherever it stands: taking out one occurrence splits
  the name into two parts that are treated the same way. Every entry of the listing gives
  an identifier, and an entry in which \<^verbatim>\<open>.jpg\<close> does not occur is a cached identifier
  as it is, with its full name.
\<close>

theorem cached_id_amended:
  "cached_id (a @ ''.jpg'' @ b) = cached_id a @ cached_id b
   \<and> downloaded_ids entries = map cached_id entries
   \<and> (\<not> occurs ''.jpg'' entry \<longrightarrow>
        cached_id entry = entry
        \<and> (entry \<in> set entries \<longrightarrow> entry \<in> set (downloaded_ids entries)))"
proof -
  have p1: "cached_id (a @ ''.jpg'' @ b) = cached_id a @ cached_id b"
    unfolding cached_id_def by (rule replace_at_occurrence)
  have p2: "downloaded_ids entries = map cached_id entries"
    by (simp add: downloaded_ids_def)
  have p3: "cached_id entry = entry" if "\<not> occurs ''.jpg'' entry"
    using that by (simp add: cached_id_def replace_no_occurrence)
  have p4: "entry \<in> set (downloaded_ids entries)"
    if "\<not> occurs ''.jpg'' entry" and "entry \<in> set entries"
    using p3 [OF that(1)] that(2) unfolding p2 by (metis image_eqI list.set_map)
  from p1 p2 p3 p4 show ?thesis by blast
qed

theorem cached_id_amended_witness:
  "cached_id (''1'' @ ''.jpg'' @ ''.bak'') = cached_id ''1'' @ cached_id ''.bak''
   \<and> \<not> occurs ''.jpg'' ''notes.txt''
   \<and> cached_id ''notes.txt'' = ''notes.txt''
   \<and> ''notes.txt'' \<in> set [''1.jpg'', ''notes.txt'']
   \<and> ''notes.txt'' \<in> set (downloaded_ids [''1.jpg'', ''notes.txt''])"
  using cached_id_amended [of "''1''" "''.bak''" "[''1.jpg'', ''notes.txt'']" "''notes.txt''"]
  by simp

text \<open>
  C9 as stated fails for a name that does not end in \<^verbatim>\<open>.jpg\<close> but holds it elsewhere:
  the identifier is not the full name.
\<close>

theorem cached_id_counterexample:
  "\<not> ends_with ''.jpg'' ''1.jpg.bak'' \<and> cached_id ''1.jpg.bak'' = ''1.bak''
   \<and> cached_id ''1.jpg.bak'' \<noteq> ''1.jpg.bak''"
  by (simp add: cached_id_def ends_with_def)

section \<open>The download pass\<close>

lemma photo_url_sets_append: "photo_url_sets (rs @ rs') = photo_url_sets rs @ photo_url_sets rs'"
  by (induction rs rule: photo_url_sets.induct) simp_all

lemma photo_url_sets_downloads: "\<forall>r\<in>set ds. is_download r \<Longrightarrow> photo_url_sets ds = []"
  by (induction ds rule: photo_url_sets.induct) simp_all

lemma download_file_requests:
  "requests (snd (download_file E file_path url w)) = requests w @ [Download file_path url]"
  by (simp add: download_file_def Let_def)

text \<open>The identifiers joined are those of the missing set, each once.\<close>

lemma missing_order_enumerates:
  "set (missing_order E override expected entries) = missing_ids override expected entries
   \<and> distinct (missing_order E override expected entries)"
proof -
  have "set (remdups (filter (\<lambda>i. i \<in> missing_ids override expected entries) expected))
      = missing_ids override expected entries"
    by (auto simp: missing_ids_def)
  then show ?thesis
    by (simp add: missing_order_def Let_def)
qed

lemma missing_order_empty:
  "missing_ids override expected entries = {} \<Longrightarrow> missing_order E override expected entries = []"
  using missing_order_enumerates [of E override expected entries] by simp

text \<open>The loop sends downloads only.\<close>

lemma download_loop_requests:
  "\<exists>ds. requests (snd (download_loop E cd ps w)) = requests w @ ds \<and> (\<forall>r\<in>set ds. is_download r)"
proof (induction ps arbitrary: w)
  case Nil
  show ?case by simp
next
  case (Cons p ps)
  show ?case
  proof (cases "subscript p ''largeUri''")
    case (Inl e)
    then show ?thesis by simp
  next
    case (Inr url)
    show ?thesis
    proof (cases "truthy url")
      case False
      with Inr Cons.IH [of w] show ?thesis by simp
    next
      case True
      show ?thesis
      proof (cases "subscript p ''individualId''")
        case (Inl e)
        with Inr True show ?thesis by simp
      next
        case i: (Inr i)
        define path where "path = path_join cd (py_str (repr E) i @ ''.jpg'')"
        define w' where "w' = snd (download_file E path url w)"
        have rq: "requests w' = requests w @ [Download path url]"
          by (simp add: w'_def download_file_requests)
        show ?thesis
        proof (cases "fst (download_file E path url w)")
          case (Some e)
          with Inr True i rq show ?thesis by (simp add: Let_def w'_def path_def)
        next
          case None
          from Cons.IH [of w'] obtain ds where
            "requests (snd (download_loop E cd ps w')) = requests w' @ ds"
            "\<forall>r\<in>set ds. is_download r"
            by blast
          with Inr True i rq None show ?thesis by (simp add: Let_def w'_def path_def)
        qed
      qed
    qed
  qed
qed

text \<open>The pass sends the metadata request for the missing set first, then downloads.\<close>

lemma download_images_requests:
  "\<exists>ds. requests (snd (download_images E override f w)) =
          requests w @ PhotoUrl (missing_order E override (ids f) (listing w)) # ds \<and>
        (\<forall>r\<in>set ds. is_download r)"
proof -
  define order where "order = missing_order E override (ids f) (listing w)"
  define w1 where "w1 = w\<lparr> requests := requests w @ [PhotoUrl order] \<rparr>"
  show ?thesis
  proof (cases "photo_url E (member_text order)")
    case (Inl e)
    then show ?thesis by (simp add: download_images_def Let_def order_def)
  next
    case (Inr data)
    show ?thesis
    proof (cases "py_iter data")
      case (Inl e)
      with Inr show ?thesis by (simp add: download_images_def Let_def order_def)
    next
      case entries: (Inr entries)
      from download_loop_requests [of E "cache_dir f" entries w1] obtain ds where
        "requests (snd (download_loop E (cache_dir f) entries w1)) = requests w1 @ ds"
        "\<forall>r\<in>set ds. is_download r" by blast
      with Inr entries show ?thesis
        by (simp add: download_images_def Let_def w1_def order_def)
    qed
  qed
qed

lemma load_member_images_world:
  "snd (snd (load_member_images E True override f w)) = snd (download_images E override f w)"
  by (simp add: load_member_images_def Let_def split: option.splits)

lemma photo_url_sets_download_images:
  "photo_url_sets (requests (snd (download_images E override f w))) =
     photo_url_sets (requests w) @ [missing_ids override (ids f) (listing w)]"
proof -
  from download_images_requests [of E override f w] obtain ds where
    "requests (snd (download_images E override f w)) =
       requests w @ PhotoUrl (missing_order E override (ids f) (listing w)) # ds"
    "\<forall>r\<in>set ds. is_download r" by blast
  then show ?thesis
    by (simp add: photo_url_sets_append photo_url_sets_downloads missing_order_enumerates)
qed

text \<open>
  C1, as the code has it. A run of \<^verbatim>\<open>load_member_images\<close> with \<open>download\<close> true sends one
  metadata request more, and it asks for exactly the missing set: the expected
  identifiers without the cached ones, a cached identifier being a listing entry with
  every \<^verbatim>\<open>.jpg\<close> taken out; with \<open>override\<close> true it is the whole expected set. With
  \<^verbatim>\<open>1.jpg\<close> in the cache and the expected identifiers 1 and 2, the request is for
  exactly the identifier 2.
\<close>

theorem missing_set_amended:
  "photo_url_sets (requests (snd (snd (load_member_images E True override f w)))) =
     photo_url_sets (requests w) @ [missing_ids override (ids f) (listing w)]
   \<and> missing_ids override (ids f) (listing w) =
       set (ids f) - (if override then {} else cached_id ` set (listing w))
   \<and> photo_url_sets (requests (snd (snd (load_member_images E True False
        (f\<lparr> ids := [''1'', ''2''] \<rparr>) \<lparr> listing = [''1.jpg''], requests = [] \<rparr>)))) = [{''2''}]"
proof -
  have a: "photo_url_sets (requests (snd (snd (load_member_images E True ov g v)))) =
      photo_url_sets (requests v) @ [missing_ids ov (ids g) (listing v)]" for ov g v
    by (simp only: load_member_images_world photo_url_sets_download_images)
  have b: "missing_ids override (ids f) (listing w) =
      set (ids f) - (if override then {} else cached_id ` set (listing w))"
    by (simp add: missing_ids_def downloaded_ids_def)
  have c: "missing_ids False [''1'', ''2''] [''1.jpg''] = {''2''}"
    by (auto simp: missing_ids_def downloaded_ids_def cached_id_def)
  show ?thesis
    unfolding a using b c by simp
qed

text \<open>
  C1 as stated, with the cached identifier read off by stripping the extension from the
  end of the name, fails for a file with a doubled extension: the claimed missing set is
  the identifier 1, and the request is for the empty set.
\<close>

theorem missing_set_counterexample:
  "set (ids (demo_fetcher\<lparr> ids := [''1''] \<rparr>)) - set (map strip_extension (listing doubled_world))
     = {''1''}
   \<and> photo_url_sets (requests (snd (snd (load_member_images demo_env True False
        (demo_fetcher\<lparr> ids := [''1''] \<rparr>) doubled_world)))) = [{}]"
proof -
  have "strip_extension ''1.jpg.jpg'' = ''1.jpg''"
    by (simp add: strip_extension_def ends_with_def)
  moreover have "missing_ids False [''1''] [''1.jpg.jpg''] = {}"
    by (simp add: missing_ids_def downloaded_ids_def cached_id_def)
  ultimately show ?thesis
    by (simp add: load_member_images_world photo_url_sets_download_images
        doubled_world_def demo_fetcher_def)
qed

text \<open>
  C10, as the code has it. The missing set is a function of the set of expected
  identifiers and the set of cached identifiers: two fetchers and two cache directories
  that agree on these sets give the same missing set, and a list of expected identifiers
  gives the missing set that the list without its duplicates gives. Each of the two passes
  then sends one metadata request, which names the identifiers of that common set, each
  once, in the order in which the set is iterated; the order, and with it the text of the
  request, is not determined by the two sets.
\<close>

theorem missing_ids_sets_only_amended:
  "set (ids f) = set (ids g) \<Longrightarrow>
   set (downloaded_ids (listing w)) = set (downloaded_ids (listing v)) \<Longrightarrow>
     missing_ids override (ids f) (listing w) = missing_ids override (ids g) (listing v)
     \<and> missing_ids override (remdups (ids f)) (listing w) =
         missing_ids override (ids f) (listing w)
     \<and> (\<exists>xs ds. requests (snd (download_images E override f w)) = requests w @ PhotoUrl xs # ds
           \<and> distinct xs \<and> set xs = missing_ids override (ids g) (listing v)
           \<and> (\<forall>r\<in>set ds. is_download r))
     \<and> (\<exists>ys ds. requests (snd (download_images E override g v)) = requests v @ PhotoUrl ys # ds
           \<and> distinct ys \<and> set ys = missing_ids override (ids g) (listing v)
           \<and> (\<forall>r\<in>set ds. is_download r))"
proof -
  assume a: "set (ids f) = set (ids g)"
    and b: "set (downloaded_ids (listing w)) = set (downloaded_ids (listing v))"
  have m: "missing_ids override (ids f) (listing w) = missing_ids override (ids g) (listing v)"
    using a b by (simp add: missing_ids_def)
  have d: "missing_ids override (remdups (ids f)) (listing w) =
      missing_ids override (ids f) (listing w)"
    by (simp add: missing_ids_def)
  have r: "\<exists>xs ds. requests (snd (download_images E override h u)) = requests u @ PhotoUrl xs # ds
      \<and> distinct xs \<and> set xs = missing_ids override (ids h) (listing u)
      \<and> (\<forall>r\<in>set ds. is_download r)" for h u
    using download_images_requests [of E override h u]
      missing_order_enumerates [of E override "ids h" "listing u"]
    by blast
  from m d r [of f w] r [of g v] show ?thesis by simp
qed

lemma repeated_run:
  "requests (snd (download_images demo_env False repeated_fetcher empty_world)) =
     [PhotoUrl [''1'', ''2''],
      Download ''/out/cache/1.jpg'' (PStr ''https://photos.example/1''),
      Download ''/out/cache/2.jpg'' (PStr ''https://photos.example/2'')]"
proof -
  have m: "missing_order E False [''1'', ''2'', ''1''] [] = [''1'', ''2'']"
    if "set_order E = insertion_order" for E
    using that
    by (auto simp: missing_order_def missing_ids_def downloaded_ids_def insertion_order_def Let_def)
  show ?thesis
    by (simp add: download_images_def repeated_fetcher_def demo_fetcher_def empty_world_def
        m Let_def member_text_def demo_env_def py_split_def photo_entry_def download_file_def
        path_join_def file_name_def)
qed

lemma swapped_run:
  "requests (snd (download_images demo_env False swapped_fetcher empty_world)) =
     [PhotoUrl [''2'', ''1''],
      Download ''/out/cache/1.jpg'' (PStr ''https://photos.example/1''),
      Download ''/out/cache/2.jpg'' (PStr ''https://photos.example/2'')]"
proof -
  have m: "missing_order E False [''2'', ''1''] [] = [''2'', ''1'']"
    if "set_order E = insertion_order" for E
    using that
    by (auto simp: missing_order_def missing_ids_def downloaded_ids_def insertion_order_def Let_def)
  show ?thesis
    by (simp add: download_images_def swapped_fetcher_def demo_fetcher_def empty_world_def
        m Let_def member_text_def demo_env_def py_split_def photo_entry_def download_file_def
        path_join_def file_name_def)
qed

theorem missing_ids_sets_only_amended_witness:
  "set (ids repeated_fetcher) = set (ids swapped_fetcher)
   \<and> missing_ids False (ids repeated_fetcher) (listing empty_world) = {''1'', ''2''}
   \<and> missing_ids False (ids swapped_fetcher) (listing empty_world) = {''1'', ''2''}
   \<and> missing_ids False (remdups (ids repeated_fetcher)) (listing empty_world) = {''1'', ''2''}"
proof -
  have s: "set (ids repeated_fetcher) = set (ids swapped_fetcher)"
    by (auto simp: repeated_fetcher_def swapped_fetcher_def)
  have d: "set (downloaded_ids (listing empty_world)) = set (downloaded_ids (listing empty_world))"
    by (rule refl)
  have m2: "missing_ids False (ids swapped_fetcher) (listing empty_world) = {''1'', ''2''}"
    by (auto simp: missing_ids_def downloaded_ids_def swapped_fetcher_def empty_world_def)
  note t = missing_ids_sets_only_amended [where f = repeated_fetcher and g = swapped_fetcher
      and w = empty_world and v = empty_world and override = False and E = demo_env, OF s d]
  from t have m1: "missing_ids False (ids repeated_fetcher) (listing empty_world) = {''1'', ''2''}"
    unfolding m2 by (rule conjunct1)
  from t have "missing_ids False (remdups (ids repeated_fetcher)) (listing empty_world) =
      missing_ids False (ids repeated_fetcher) (listing empty_world)"
    by (rule conjunct1 [OF conjunct2])
  then have m3: "missing_ids False (remdups (ids repeated_fetcher)) (listing empty_world) = {''1'', ''2''}"
    unfolding m1 .
  show ?thesis
    by (rule conjI [OF s conjI [OF m1 conjI [OF m2 m3]]])
qed

text \<open>
  C10 as stated fails for the request: two lists of expected identifiers with the same
  elements, over the same cache directory, have the same missing set, and yet the requests
  differ. With sets that iterate in the order of first insertion, the list 1, 2, 1 sends
  the text \<^verbatim>\<open>1,2\<close> and its deduplicated list 2, 1 sends \<^verbatim>\<open>2,1\<close>.
\<close>

theorem missing_ids_sets_only_counterexample:
  "set (ids repeated_fetcher) = set (ids swapped_fetcher)
   \<and> remdups (ids repeated_fetcher) = ids swapped_fetcher
   \<and> missing_ids False (ids repeated_fetcher) (listing empty_world) =
       missing_ids False (ids swapped_fetcher) (listing empty_world)
   \<and> hd (requests (snd (download_images demo_env False repeated_fetcher empty_world))) =
       PhotoUrl [''1'', ''2'']
   \<and> hd (requests (snd (download_images demo_env False swapped_fetcher empty_world))) =
       PhotoUrl [''2'', ''1'']
   \<and> member_text [''1'', ''2''] = ''1,2''
   \<and> member_text [''2'', ''1''] = ''2,1''"
proof -
  have "set (ids repeated_fetcher) = set (ids swapped_fetcher)"
    by (auto simp: repeated_fetcher_def swapped_fetcher_def)
  moreover have "remdups (ids repeated_fetcher) = ids swapped_fetcher"
    by (simp add: repeated_fetcher_def swapped_fetcher_def)
  moreover have "missing_ids False (ids repeated_fetcher) (listing empty_world) =
       missing_ids False (ids swapped_fetcher) (listing empty_world)"
    by (auto simp: missing_ids_def repeated_fetcher_def swapped_fetcher_def)
  moreover have "member_text [''1'', ''2''] = ''1,2''" "member_text [''2'', ''1''] = ''2,1''"
    by (simp_all add: member_text_def)
  ultimately show ?thesis
    by (simp only: repeated_run swapped_run list.sel simp_thms)
qed

text \<open>
  C3, as the code has it. When every expected identifier is cached, a run with
  \<open>download\<close> true and \<open>override\<close> false still sends one metadata request, for the empty
  set of identifiers, and after it only the downloads of entries the service returns for
  that request; when the service returns no entry, the metadata request is the run's only
  request and the cache directory is left as it was.
\<close>

theorem cached_run_amended:
  "set (ids f) \<subseteq> set (downloaded_ids (listing w)) \<Longrightarrow>
     (\<exists>ds. requests (snd (snd (load_member_images E True False f w))) =
             requests w @ PhotoUrl [] # ds
           \<and> (\<forall>r\<in>set ds. is_download r))
     \<and> (photo_url E (member_text []) = Inr (PList []) \<longrightarrow>
          load_member_images E True False f w =
            (None,
             f\<lparr> members := assign_paths (cache_dir f) (downloaded_ids (listing w)) (members f) \<rparr>,
             w\<lparr> requests := requests w @ [PhotoUrl []] \<rparr>))"
proof -
  assume "set (ids f) \<subseteq> set (downloaded_ids (listing w))"
  then have "missing_ids False (ids f) (listing w) = {}"
    by (auto simp: missing_ids_def)
  then have m: "missing_order E False (ids f) (listing w) = []"
    by (rule missing_order_empty)
  have "\<exists>ds. requests (snd (snd (load_member_images E True False f w))) =
             requests w @ PhotoUrl [] # ds \<and> (\<forall>r\<in>set ds. is_download r)"
    using download_images_requests [of E False f w]
    by (simp only: load_member_images_world m)
  moreover have "load_member_images E True False f w =
      (None,
       f\<lparr> members := assign_paths (cache_dir f) (downloaded_ids (listing w)) (members f) \<rparr>,
       w\<lparr> requests := requests w @ [PhotoUrl []] \<rparr>)"
    if "photo_url E (member_text []) = Inr (PList [])"
    using that m by (simp add: load_member_images_def download_images_def Let_def)
  ultimately show ?thesis by blast
qed

lemma first_run_eq:
  "first_run =
     (None,
      demo_fetcher\<lparr> members := [(''1'', john\<lparr> image_path := Some ''/out/cache/1.jpg'' \<rparr>),
                                 (''2'', jane\<lparr> image_path := Some ''/out/cache/2.jpg'' \<rparr>)] \<rparr>,
      \<lparr> listing = [''1.jpg'', ''2.jpg''],
        requests = [PhotoUrl [''2''],
                    Download ''/out/cache/2.jpg'' (PStr ''https://photos.example/2'')] \<rparr>)"
proof -
  have m: "missing_order E False [''1'', ''2''] [''1.jpg''] = [''2'']"
    if "set_order E = insertion_order" for E
    using that
    by (auto simp: missing_order_def missing_ids_def downloaded_ids_def cached_id_def
        insertion_order_def Let_def)
  show ?thesis
    by (simp add: first_run_def load_member_images_def download_images_def demo_env_def
        demo_fetcher_def demo_world_def m Let_def photo_entry_def download_file_def
        path_join_def file_name_def downloaded_ids_def cached_id_def member_text_def
        py_split_def)
qed

theorem cached_run_amended_witness:
  "set (ids (fst (snd first_run))) \<subseteq> set (downloaded_ids (listing (snd (snd first_run))))
   \<and> photo_url demo_env (member_text []) = Inr (PList [])
   \<and> second_run =
       (None, fst (snd first_run),
        (snd (snd first_run))\<lparr> requests := requests (snd (snd first_run)) @ [PhotoUrl []] \<rparr>)"
proof -
  have h: "set (ids (fst (snd first_run))) \<subseteq> set (downloaded_ids (listing (snd (snd first_run))))"
    by (simp add: first_run_eq demo_fetcher_def downloaded_ids_def cached_id_def)
  have e: "photo_url demo_env (member_text []) = Inr (PList [])"
    by (simp add: demo_env_def member_text_def py_split_def)
  have a: "assign_paths (cache_dir (fst (snd first_run)))
      (downloaded_ids (listing (snd (snd first_run)))) (members (fst (snd first_run)))
      = members (fst (snd first_run))"
    by (simp add: first_run_eq demo_fetcher_def downloaded_ids_def cached_id_def path_join_def)
  show ?thesis
    using cached_run_amended [OF h, of demo_env] h e a
    by (simp add: second_run_def)
qed

text \<open>
  C3 as stated fails: the second of two runs in a row, with every expected identifier
  cached after the first, sends one request more.
\<close>

theorem cached_run_counterexample:
  "set (ids (fst (snd first_run))) \<subseteq> set (downloaded_ids (listing (snd (snd first_run))))
   \<and> requests (snd (snd second_run)) = requests (snd (snd first_run)) @ [PhotoUrl []]
   \<and> length (requests (snd (snd second_run))) = length (requests (snd (snd first_run))) + 1"
proof -
  have "missing_ids False [''1'', ''2''] [''1.jpg'', ''2.jpg''] = {}"
    by (auto simp: missing_ids_def downloaded_ids_def cached_id_def)
  then have m: "missing_order E False [''1'', ''2''] [''1.jpg'', ''2.jpg''] = []" for E
    by (rule missing_order_empty)
  have "requests (snd (snd second_run)) = requests (snd (snd first_run)) @ [PhotoUrl []]"
    by (simp add: second_run_def first_run_eq load_member_images_def download_images_def
        demo_env_def demo_fetcher_def m Let_def member_text_def py_split_def)
  moreover have "set (ids (fst (snd first_run))) \<subseteq> set (downloaded_ids (listing (snd (snd first_run))))"
    by (simp add: first_run_eq demo_fetcher_def downloaded_ids_def cached_id_def)
  ultimately show ?thesis by simp
qed

subsection \<open>The loop over the metadata entries\<close>

lemma loop_error:
  "entry_error p = Some e \<Longrightarrow> download_loop E cd (p # rest) w = (Some e, w)"
  by (auto simp: entry_error_def split: sum.splits if_splits)

lemma loop_skip:
  "subscript p ''largeUri'' = Inr u \<Longrightarrow> \<not> truthy u \<Longrightarrow>
     download_loop E cd (p # rest) w = download_loop E cd rest w"
  by simp

lemma loop_skip_complete:
  "complete p \<Longrightarrow> \<not> truthy (field_or_none ''largeUri'' p) \<Longrightarrow>
     download_loop E cd (p # rest) w = download_loop E cd rest w"
  by (auto simp: complete_def entry_error_def field_or_none_def split: sum.splits if_splits)

lemma loop_download:
  "complete p \<Longrightarrow> truthy (field_or_none ''largeUri'' p) \<Longrightarrow>
     download_loop E cd (p # rest) w =
       (case fst (download_file E (entry_path E cd p) (field_or_none ''largeUri'' p) w) of
          Some e \<Rightarrow> (Some e, snd (download_file E (entry_path E cd p) (field_or_none ''largeUri'' p) w))
        | None \<Rightarrow>
            download_loop E cd rest
              (snd (download_file E (entry_path E cd p) (field_or_none ''largeUri'' p) w)))"
proof -
  assume c: "complete p" and t: "truthy (field_or_none ''largeUri'' p)"
  from c obtain u where u: "subscript p ''largeUri'' = Inr u"
    by (auto simp: complete_def entry_error_def split: sum.splits)
  then have uu: "field_or_none ''largeUri'' p = u"
    by (simp add: field_or_none_def)
  with t have tu: "truthy u" by simp
  from c u tu obtain i where i: "subscript p ''individualId'' = Inr i"
    by (auto simp: complete_def entry_error_def split: sum.splits)
  then have ii: "field_or_none ''individualId'' p = i"
    by (simp add: field_or_none_def)
  show ?thesis
    unfolding uu entry_path_def ii using u tu i
    by (simp add: Let_def cong: option.case_cong)
qed

lemma keyless_error:
  "map_of kvs ''largeUri'' = None \<Longrightarrow> entry_error (PDict kvs) = Some (KeyError ''largeUri'')"
  by (simp add: entry_error_def)

lemma no_id_error:
  "map_of kvs ''largeUri'' = Some u \<Longrightarrow> truthy u \<Longrightarrow> map_of kvs ''individualId'' = None \<Longrightarrow>
     entry_error (PDict kvs) = Some (KeyError ''individualId'')"
  by (simp add: entry_error_def)

lemma path_join_plain:
  "cd \<noteq> [] \<Longrightarrow> last cd \<noteq> CHR ''/'' \<Longrightarrow> i = [] \<or> hd i \<noteq> CHR ''/'' \<Longrightarrow>
     path_join cd (i @ ''.jpg'') = cd @ ''/'' @ i @ ''.jpg''"
  by (cases i) (auto simp: path_join_def)

text \<open>
  The run of the loop over any list: the entries up to the first incomplete one are the
  ones processed.
\<close>

lemma streams_ok_Cons:
  "streams_ok E cd (p # ps) \<longleftrightarrow>
     (truthy (field_or_none ''largeUri'' p) \<longrightarrow>
        (\<forall>l. fst (stream_to_file E (entry_path E cd p) (field_or_none ''largeUri'' p) l) = None))
     \<and> streams_ok E cd ps"
  by (simp add: streams_ok_def)

lemma download_loop_run:
  "(\<exists>n. requests (snd (download_loop E cd ps w)) =
          requests w @ take n (entry_downloads E cd (takeWhile complete ps)))
   \<and> (streams_ok E cd (takeWhile complete ps) \<longrightarrow>
        requests (snd (download_loop E cd ps w)) =
          requests w @ entry_downloads E cd (takeWhile complete ps)
        \<and> fst (download_loop E cd ps w) = first_error ps)"
proof (induction ps arbitrary: w)
  case Nil
  show ?case by (simp add: entry_downloads_def downloads_of_def first_error_def)
next
  case (Cons p ps)
  let ?uri = "field_or_none ''largeUri''"
  have ih1: "\<exists>n. requests (snd (download_loop E cd ps v)) =
      requests v @ take n (entry_downloads E cd (takeWhile complete ps))" for v
    using Cons.IH [of v] by (rule conjunct1)
  have ih2: "requests (snd (download_loop E cd ps v)) =
      requests v @ entry_downloads E cd (takeWhile complete ps)
      \<and> fst (download_loop E cd ps v) = first_error ps"
    if "streams_ok E cd (takeWhile complete ps)" for v
    using Cons.IH [of v] that by (rule conjunct2 [THEN mp])
  show ?case
  proof (cases "complete p")
    case False
    then obtain e where e: "entry_error p = Some e"
      by (auto simp: complete_def)
    then have res: "download_loop E cd (p # ps) w = (Some e, w)"
      by (rule loop_error)
    from False have tw: "takeWhile complete (p # ps) = []" by simp
    from False e have fe: "first_error (p # ps) = Some e" by (simp add: first_error_def)
    show ?thesis
      unfolding res tw fe by (simp add: entry_downloads_def downloads_of_def)
  next
    case True
    then have tw: "takeWhile complete (p # ps) = p # takeWhile complete ps" by simp
    from True have fe: "first_error (p # ps) = first_error ps" by (simp add: first_error_def)
    show ?thesis
    proof (cases "truthy (?uri p)")
      case False
      with True have res: "download_loop E cd (p # ps) w = download_loop E cd ps w"
        by (rule loop_skip_complete)
      from False have ds: "entry_downloads E cd (p # takeWhile complete ps) =
          entry_downloads E cd (takeWhile complete ps)"
        by (simp add: entry_downloads_def downloads_of_def)
      have ok: "streams_ok E cd (takeWhile complete ps)"
        if "streams_ok E cd (p # takeWhile complete ps)"
        using that by (simp add: streams_ok_Cons)
      show ?thesis
        unfolding res tw fe ds
      proof (intro conjI impI)
        show "\<exists>n. requests (snd (download_loop E cd ps w)) =
            requests w @ take n (entry_downloads E cd (takeWhile complete ps))"
          by (rule ih1)
      next
        assume "streams_ok E cd (p # takeWhile complete ps)"
        then have "streams_ok E cd (takeWhile complete ps)" by (rule ok)
        then show "requests (snd (download_loop E cd ps w)) =
            requests w @ entry_downloads E cd (takeWhile complete ps)"
          by (rule ih2 [THEN conjunct1])
      next
        assume "streams_ok E cd (p # takeWhile complete ps)"
        then have "streams_ok E cd (takeWhile complete ps)" by (rule ok)
        then show "fst (download_loop E cd ps w) = first_error ps"
          by (rule ih2 [THEN conjunct2])
      qed
    next
      case uri: True
      define r where "r = download_file E (entry_path E cd p) (?uri p) w"
      define d where "d = Download (entry_path E cd p) (?uri p)"
      have rq: "requests (snd r) = requests w @ [d]"
        by (simp add: r_def d_def download_file_requests)
      have fr: "fst r = fst (stream_to_file E (entry_path E cd p) (?uri p) (listing w))"
        by (simp add: r_def download_file_def Let_def)
      have ds: "entry_downloads E cd (p # takeWhile complete ps) =
          d # entry_downloads E cd (takeWhile complete ps)"
        using uri by (simp add: entry_downloads_def downloads_of_def entry_path_def d_def)
      have step: "download_loop E cd (p # ps) w =
          (case fst r of Some e \<Rightarrow> (Some e, snd r) | None \<Rightarrow> download_loop E cd ps (snd r))"
        unfolding r_def using True uri by (rule loop_download)
      have ok: "fst r = None \<and> streams_ok E cd (takeWhile complete ps)"
        if "streams_ok E cd (p # takeWhile complete ps)"
        using that uri fr by (simp add: streams_ok_Cons)
      show ?thesis
      proof (cases "fst r")
        case (Some e)
        then have res: "download_loop E cd (p # ps) w = (Some e, snd r)"
          using step by simp
        have "requests (snd r) =
            requests w @ take 1 (d # entry_downloads E cd (takeWhile complete ps))"
          using rq by simp
        then have c1: "\<exists>n. requests (snd r) =
            requests w @ take n (d # entry_downloads E cd (takeWhile complete ps))"
          by (rule exI)
        have c2: "\<not> streams_ok E cd (p # takeWhile complete ps)"
          using ok Some by auto
        show ?thesis
          unfolding res tw fe ds snd_conv fst_conv using c1 c2 by simp
      next
        case None
        then have res: "download_loop E cd (p # ps) w = download_loop E cd ps (snd r)"
          using step by simp
        from ih1 [of "snd r"] obtain n where
          "requests (snd (download_loop E cd ps (snd r))) =
             requests (snd r) @ take n (entry_downloads E cd (takeWhile complete ps))"
          by blast
        then have "requests (snd (download_loop E cd ps (snd r))) =
            requests w @ take (Suc n) (d # entry_downloads E cd (takeWhile complete ps))"
          using rq by simp
        then have c1: "\<exists>n. requests (snd (download_loop E cd ps (snd r))) =
            requests w @ take n (d # entry_downloads E cd (takeWhile complete ps))"
          by (rule exI)
        have c2: "requests (snd (download_loop E cd ps (snd r))) =
            requests w @ d # entry_downloads E cd (takeWhile complete ps)
            \<and> fst (download_loop E cd ps (snd r)) = first_error ps"
          if "streams_ok E cd (p # takeWhile complete ps)"
        proof -
          from ok [OF that] have "streams_ok E cd (takeWhile complete ps)" by simp
          from ih2 [OF this, of "snd r"] rq show ?thesis by simp
        qed
        show ?thesis
          unfolding res tw fe ds
        proof (intro conjI impI)
          show "\<exists>n. requests (snd (download_loop E cd ps (snd r))) =
              requests w @ take n (d # entry_downloads E cd (takeWhile complete ps))"
            by (rule c1)
        next
          assume "streams_ok E cd (p # takeWhile complete ps)"
          then show "requests (snd (download_loop E cd ps (snd r))) =
              requests w @ d # entry_downloads E cd (takeWhile complete ps)"
            by (rule c2 [THEN conjunct1])
        next
          assume "streams_ok E cd (p # takeWhile complete ps)"
          then show "fst (download_loop E cd ps (snd r)) = first_error ps"
            by (rule c2 [THEN conjunct2])
        qed
      qed
    qed
  qed
qed

text \<open>
  C7, as the code has it. The loop goes through the entries of the metadata answer in
  order, up to the first one that cannot be read. An entry with the key \<^verbatim>\<open>largeUri\<close> and
  an empty or \<^verbatim>\<open>None\<close> value is skipped: nothing is raised, requested or written, and the
  loop goes on as if the entry were not there. An entry with a true URI is downloaded to
  \<^verbatim>\<open>os.path.join(cache_dir, id + '.jpg')\<close>, which is \<^verbatim>\<open>cache_dir/<id>.jpg\<close> unless the
  identifier starts with a slash. An entry without the key \<^verbatim>\<open>largeUri\<close> raises KeyError,
  and so does one with a true URI and no \<^verbatim>\<open>individualId\<close>; the loop ends there. So the
  requests of the loop are a prefix of the downloads of the true URIs among the entries
  before the first incomplete one, and, when no download raises, all of them, the outcome
  being the error of the first incomplete entry, or none.
\<close>

theorem download_loop_amended:
  "(\<exists>n. requests (snd (download_loop E cd ps w)) =
          requests w @ take n (entry_downloads E cd (takeWhile complete ps)))
   \<and> (streams_ok E cd (takeWhile complete ps) \<longrightarrow>
        requests (snd (download_loop E cd ps w)) =
          requests w @ entry_downloads E cd (takeWhile complete ps)
        \<and> fst (download_loop E cd ps w) = first_error ps)
   \<and> (subscript q ''largeUri'' = Inr u \<and> \<not> truthy u \<longrightarrow>
        complete q \<and> download_loop E cd (q # rest) w = download_loop E cd rest w)
   \<and> (map_of kvs ''largeUri'' = None \<longrightarrow>
        \<not> complete (PDict kvs)
        \<and> download_loop E cd (PDict kvs # rest) w = (Some (KeyError ''largeUri''), w))
   \<and> (map_of kvs ''largeUri'' = Some u \<and> truthy u \<and> map_of kvs ''individualId'' = None \<longrightarrow>
        \<not> complete (PDict kvs)
        \<and> download_loop E cd (PDict kvs # rest) w = (Some (KeyError ''individualId''), w))
   \<and> (cd \<noteq> [] \<and> last cd \<noteq> CHR ''/'' \<and> (i = [] \<or> hd i \<noteq> CHR ''/'') \<longrightarrow>
        path_join cd (i @ ''.jpg'') = cd @ ''/'' @ i @ ''.jpg'')"
proof -
  have skip: "complete q \<and> download_loop E cd (q # rest) w = download_loop E cd rest w"
    if "subscript q ''largeUri'' = Inr u" "\<not> truthy u"
    using that by (simp add: complete_def entry_error_def)
  have keyless: "\<not> complete (PDict kvs)
      \<and> download_loop E cd (PDict kvs # rest) w = (Some (KeyError ''largeUri''), w)"
    if "map_of kvs ''largeUri'' = None"
    using keyless_error [OF that] loop_error [of "PDict kvs" "KeyError ''largeUri''"]
    by (simp add: complete_def)
  have no_id: "\<not> complete (PDict kvs)
      \<and> download_loop E cd (PDict kvs # rest) w = (Some (KeyError ''individualId''), w)"
    if "map_of kvs ''largeUri'' = Some u" "truthy u" "map_of kvs ''individualId'' = None"
    using no_id_error [OF that] loop_error [of "PDict kvs" "KeyError ''individualId''"]
    by (simp add: complete_def)
  have path: "path_join cd (i @ ''.jpg'') = cd @ ''/'' @ i @ ''.jpg''"
    if "cd \<noteq> []" "last cd \<noteq> CHR ''/''" "i = [] \<or> hd i \<noteq> CHR ''/''"
    using that by (rule path_join_plain)
  from download_loop_run [of E cd ps w] skip keyless no_id path show ?thesis
    by blast
qed

lemma mixed_entries_split:
  "takeWhile complete mixed_entries = sample_entries
   \<and> first_error mixed_entries = Some (KeyError ''largeUri'')"
  by (simp add: mixed_entries_def sample_entries_def keyless_entry_def photo_entry_def
      complete_def entry_error_def first_error_def)

theorem download_loop_amended_witness:
  "fst (download_loop demo_env ''/out/cache'' mixed_entries demo_world) = Some (KeyError ''largeUri'')
   \<and> requests (snd (download_loop demo_env ''/out/cache'' mixed_entries demo_world)) =
       [Download ''/out/cache/1.jpg'' (PStr ''https://photos.example/1''),
        Download ''/out/cache/4.jpg'' (PStr ''https://photos.example/4'')]
   \<and> download_loop demo_env ''/out/cache'' (PDict [(''individualId'', PInt 2), (''largeUri'', PStr [])] # []) demo_world
       = (None, demo_world)
   \<and> path_join ''/out/cache'' (''1'' @ ''.jpg'') = ''/out/cache'' @ ''/'' @ ''1'' @ ''.jpg''"
proof -
  note t = download_loop_amended [of demo_env "''/out/cache''" mixed_entries demo_world
      "PDict [(''individualId'', PInt 2), (''largeUri'', PStr [])]" "PStr []" "[]"
      "[(''individualId'', PInt 5)]" "''1''"]
  have s: "streams_ok demo_env ''/out/cache'' (takeWhile complete mixed_entries)"
    by (simp add: streams_ok_def demo_env_def)
  from t s have run: "requests (snd (download_loop demo_env ''/out/cache'' mixed_entries demo_world)) =
      requests demo_world @ entry_downloads demo_env ''/out/cache'' (takeWhile complete mixed_entries)
      \<and> fst (download_loop demo_env ''/out/cache'' mixed_entries demo_world) =
          first_error mixed_entries"
    by blast
  have d: "requests demo_world @ entry_downloads demo_env ''/out/cache'' sample_entries =
      [Download ''/out/cache/1.jpg'' (PStr ''https://photos.example/1''),
       Download ''/out/cache/4.jpg'' (PStr ''https://photos.example/4'')]"
    by (simp add: entry_downloads_def downloads_of_def sample_entries_def photo_entry_def
        field_or_none_def demo_world_def demo_env_def path_join_def)
  from run have 1: "fst (download_loop demo_env ''/out/cache'' mixed_entries demo_world)
      = Some (KeyError ''largeUri'')"
    by (simp add: mixed_entries_split)
  from run have 2: "requests (snd (download_loop demo_env ''/out/cache'' mixed_entries demo_world)) =
       [Download ''/out/cache/1.jpg'' (PStr ''https://photos.example/1''),
        Download ''/out/cache/4.jpg'' (PStr ''https://photos.example/4'')]"
    by (simp add: mixed_entries_split d)
  have "subscript (PDict [(''individualId'', PInt 2), (''largeUri'', PStr [])]) ''largeUri'' = Inr (PStr [])
      \<and> \<not> truthy (PStr [])"
    by simp
  with t have 3: "download_loop demo_env ''/out/cache''
      (PDict [(''individualId'', PInt 2), (''largeUri'', PStr [])] # []) demo_world
      = download_loop demo_env ''/out/cache'' [] demo_world"
    by blast
  have "''/out/cache'' \<noteq> [] \<and> last ''/out/cache'' \<noteq> CHR ''/'' \<and> (''1'' = [] \<or> hd ''1'' \<noteq> CHR ''/'')"
    by simp
  with t have 4: "path_join ''/out/cache'' (''1'' @ ''.jpg'') = ''/out/cache'' @ ''/'' @ ''1'' @ ''.jpg''"
    by blast
  from 3 have 5: "download_loop demo_env ''/out/cache''
      (PDict [(''individualId'', PInt 2), (''largeUri'', PStr [])] # []) demo_world = (None, demo_world)"
    by simp
  show ?thesis
    by (rule conjI [OF 1 conjI [OF 2 conjI [OF 5 4]]])
qed

text \<open>
  C7 as stated fails for an entry from which the URI is absent: reading the key raises
  KeyError and the pass stops, the entry after it is not downloaded.
\<close>

theorem download_loop_counterexample:
  "download_loop demo_env ''/out/cache'' [PDict [(''individualId'', PInt 1)], photo_entry ''2''] demo_world
     = (Some (KeyError ''largeUri''), demo_world)"
  by simp

section \<open>The image paths\<close>

lemma dict_get_set:
  "dict_get (=) (dict_set (=) k v d) k' = (if k' = k then Some v else dict_get (=) d k')"
  by (induction d) auto

lemma keys_dict_set: "dict_get (=) d k = Some m \<Longrightarrow> map fst (dict_set (=) k v d) = map fst d"
  by (induction d) (auto split: if_splits)

lemma assign_paths_get:
  "dict_get (=) (assign_paths cd is d) k =
     map_option
       (\<lambda>m. if k \<in> set is then m\<lparr> image_path := Some (path_join cd (k @ ''.jpg'')) \<rparr> else m)
       (dict_get (=) d k)"
proof (induction "is" arbitrary: d)
  case Nil
  show ?case by (simp add: option.map_ident)
next
  case (Cons i rest)
  show ?case
  proof (cases "dict_get (=) d i")
    case None
    then show ?thesis using Cons.IH [of d] by (cases "k = i") auto
  next
    case (Some m)
    then show ?thesis
      using Cons.IH [of "dict_set (=) i (m\<lparr> image_path := Some (path_join cd (i @ ''.jpg'')) \<rparr>) d"]
      by (cases "k = i") (auto simp: dict_get_set)
  qed
qed

lemma assign_paths_keys: "map fst (assign_paths cd is d) = map fst d"
proof (induction "is" arbitrary: d)
  case Nil
  show ?case by simp
next
  case (Cons i rest)
  show ?case
  proof (cases "dict_get (=) d i")
    case None
    then show ?thesis using Cons.IH [of d] by simp
  next
    case (Some m)
    then show ?thesis
      using Cons.IH [of "dict_set (=) i (m\<lparr> image_path := Some (path_join cd (i @ ''.jpg'')) \<rparr>) d"]
      by (simp add: keys_dict_set)
  qed
qed

lemma load_member_images_None:
  "load_member_images E download override f w = (None, f', w') \<Longrightarrow>
     f' = f\<lparr> members := assign_paths (cache_dir f) (downloaded_ids (listing w')) (members f) \<rparr>"
  by (auto simp: load_member_images_def Let_def split: option.splits if_splits)

lemma load_member_images_error:
  "fst (load_member_images E download override f w) =
     (if download then fst (download_images E override f w) else None)"
  by (simp add: load_member_images_def Let_def split: option.splits)

lemma listed_file_cached:
  "k @ ''.jpg'' \<in> set entries \<Longrightarrow> \<not> occurs ''.jpg'' k \<Longrightarrow> k \<in> set (downloaded_ids entries)"
proof -
  assume e: "k @ ''.jpg'' \<in> set entries" and n: "\<not> occurs ''.jpg'' k"
  have "cached_id (k @ ''.jpg'' @ []) = cached_id k @ cached_id []"
    unfolding cached_id_def by (rule replace_at_occurrence)
  with n have "cached_id (k @ ''.jpg'') = k"
    by (simp add: cached_id_def replace_no_occurrence)
  with e show ?thesis
    unfolding downloaded_ids_def by (metis image_eqI list.set_map)
qed

text \<open>
  C4, as the code has it. After a run of \<^verbatim>\<open>load_member_images\<close> that raised nothing, a
  member whose key is among the cached identifiers of the final listing (the entries with
  every \<^verbatim>\<open>.jpg\<close> taken out) has the image path \<^verbatim>\<open>cache_dir/<id>.jpg\<close>, every other
  member is as it was before, and the members are the same keys in the same order:
  a cached identifier without a member changes nothing. A member whose file
  \<^verbatim>\<open><id>.jpg\<close> is listed, \<^verbatim>\<open>.jpg\<close> not occurring in the identifier, is among those with
  a path, which is then the path of a listed file. The labelling raises nothing: an error
  of the run is an error of the download pass.
\<close>

theorem image_paths_amended:
  "load_member_images E download override f w = (None, f', w') \<Longrightarrow>
     dict_get (=) (members f') k =
       map_option
         (\<lambda>m. if k \<in> set (downloaded_ids (listing w'))
              then m\<lparr> image_path := Some (path_join (cache_dir f) (k @ ''.jpg'')) \<rparr> else m)
         (dict_get (=) (members f) k)
     \<and> map fst (members f') = map fst (members f)
     \<and> (k @ ''.jpg'' \<in> set (listing w') \<and> \<not> occurs ''.jpg'' k \<longrightarrow>
          k \<in> set (downloaded_ids (listing w')))
     \<and> fst (load_member_images E download override f w) =
         (if download then fst (download_images E override f w) else None)"
proof -
  assume "load_member_images E download override f w = (None, f', w')"
  then have f': "f' = f\<lparr> members :=
      assign_paths (cache_dir f) (downloaded_ids (listing w')) (members f) \<rparr>"
    by (rule load_member_images_None)
  have 1: "dict_get (=) (members f') k =
       map_option
         (\<lambda>m. if k \<in> set (downloaded_ids (listing w'))
              then m\<lparr> image_path := Some (path_join (cache_dir f) (k @ ''.jpg'')) \<rparr> else m)
         (dict_get (=) (members f) k)"
    unfolding f' by (simp add: assign_paths_get)
  have 2: "map fst (members f') = map fst (members f)"
    unfolding f' by (simp add: assign_paths_keys)
  have 3: "k @ ''.jpg'' \<in> set (listing w') \<and> \<not> occurs ''.jpg'' k \<longrightarrow>
          k \<in> set (downloaded_ids (listing w'))"
    using listed_file_cached by blast
  show ?thesis
    using 1 2 3 load_member_images_error [of E download override f w] by blast
qed

lemma stray_run:
  "load_member_images demo_env False False demo_fetcher stray_world =
     (None,
      demo_fetcher\<lparr> members := [(''1'', john\<lparr> image_path := Some ''/out/cache/1.jpg'' \<rparr>),
                                 (''2'', jane)] \<rparr>,
      stray_world)"
  by (simp add: load_member_images_def Let_def demo_fetcher_def stray_world_def
      downloaded_ids_def cached_id_def path_join_def)

theorem image_paths_amended_witness:
  "dict_get (=) (members (fst (snd (load_member_images demo_env False False demo_fetcher stray_world)))) ''1''
     = Some (john\<lparr> image_path := Some ''/out/cache/1.jpg'' \<rparr>)
   \<and> map fst (members (fst (snd (load_member_images demo_env False False demo_fetcher stray_world))))
     = [''1'', ''2'']
   \<and> ''1.jpg'' \<in> set (listing stray_world)
   \<and> ''9.jpg'' \<in> set (listing stray_world)
   \<and> fst (load_member_images demo_env False False demo_fetcher stray_world) = None"
proof -
  note t = image_paths_amended [OF stray_run, of "''1''"]
  have c: "''1'' \<in> set (downloaded_ids (listing stray_world))"
    by (simp add: stray_world_def downloaded_ids_def cached_id_def)
  from t have "dict_get (=) (members (fst (snd (load_member_images demo_env False False demo_fetcher stray_world)))) ''1''
     = map_option
         (\<lambda>m. if ''1'' \<in> set (downloaded_ids (listing stray_world))
              then m\<lparr> image_path := Some (path_join (cache_dir demo_fetcher) (''1'' @ ''.jpg'')) \<rparr> else m)
         (dict_get (=) (members demo_fetcher) ''1'')"
    unfolding stray_run by simp
  then have 1: "dict_get (=) (members (fst (snd (load_member_images demo_env False False demo_fetcher stray_world)))) ''1''
     = Some (john\<lparr> image_path := Some ''/out/cache/1.jpg'' \<rparr>)"
    using c by (simp add: demo_fetcher_def path_join_def)
  from t have "map fst (members (fst (snd (load_member_images demo_env False False demo_fetcher stray_world))))
     = map fst (members demo_fetcher)"
    unfolding stray_run by simp
  then have 2: "map fst (members (fst (snd (load_member_images demo_env False False demo_fetcher stray_world))))
     = [''1'', ''2'']"
    by (simp add: demo_fetcher_def)
  have 3: "''1.jpg'' \<in> set (listing stray_world)" "''9.jpg'' \<in> set (listing stray_world)"
    by (simp_all add: stray_world_def)
  have 4: "fst (load_member_images demo_env False False demo_fetcher stray_world) = None"
    by (simp add: stray_run)
  show ?thesis
    by (rule conjI [OF 1 conjI [OF 2 conjI [OF 3(1) conjI [OF 3(2) 4]]]])
qed

text \<open>
  C4 as stated fails for a cache file that has no extension: the member 1 gets the path
  of \<^verbatim>\<open>1.jpg\<close>, and the cache directory has no such file.
\<close>

theorem image_paths_counterexample:
  "image_paths (fst (snd (load_member_images demo_env False False demo_fetcher bare_world)))
     = [(''1'', Some ''/out/cache/1.jpg''), (''2'', None)]
   \<and> listing (snd (snd (load_member_images demo_env False False demo_fetcher bare_world))) = [''1'']
   \<and> ''1.jpg'' \<notin> set (listing (snd (snd (load_member_images demo_env False False demo_fetcher bare_world))))"
  by (simp add: load_member_images_def Let_def demo_fetcher_def bare_world_def image_paths_def
      downloaded_ids_def cached_id_def path_join_def john_def jane_def)


end
